theory Spec2Isabelle
  imports Main
begin

section \<open>The channel linker (voicefix/cog.py)\<close>

text \<open>
  The cog mirrors a message posted in one channel of a link into the other channels of
  that link through per-channel webhooks, and keeps the copies in step on edit, delete
  and reaction events. Its handlers run under one lock, so each handler is modelled as
  an atomic function from the cog's state to its new state, together with the list of
  outbound platform calls it made and the exception it raised, if any.

  Discord ids (channels, links, messages, webhooks) are Python ints.
\<close>

subsection \<open>Exceptions\<close>

text \<open>
  The exceptions the handlers meet. In discord.py \<open>Forbidden\<close> and \<open>NotFound\<close> are
  subclasses of \<open>HTTPException\<close>, so a handler for \<open>HTTPException\<close> catches all three and
  a handler for \<open>NotFound\<close> only the last. \<open>StorageError\<close> stands for whatever the data
  layer raises when the database cannot be reached.
\<close>

datatype error = HTTPException | Forbidden | NotFound | KeyError | ValueError | StorageError

definition is_HTTPException :: "error \<Rightarrow> bool" where
  "is_HTTPException e = (e = HTTPException \<or> e = Forbidden \<or> e = NotFound)"

definition is_NotFound :: "error \<Rightarrow> bool" where
  "is_NotFound e = (e = NotFound)"

subsection \<open>Platform objects\<close>

type_synonym emoji = string

datatype colour = Dark_gray | Colour int

record embed =
  embed_type :: string
  embed_colour :: "colour option"
  embed_description :: string

record attachment =
  att_filename :: string
  att_spoiler :: bool

record dfile =
  file_name :: string
  file_spoiler :: bool

record author =
  display_name :: string
  avatar :: "string option"
  default_avatar :: string

text \<open>
  A \<open>discord.Message\<close>, with the fields the cog reads. \<open>msg_reference\<close> is the jump url of
  the message replied to. \<open>msg_reactions\<close> is \<open>message.reactions\<close>: one entry per distinct
  emoji on the message, with the number of times that emoji was added.
\<close>

record message =
  msg_id :: int
  msg_channel :: int
  msg_content :: string
  msg_webhook_id :: "int option"
  msg_author :: author
  msg_attachments :: "attachment list"
  msg_embeds :: "embed list"
  msg_reference :: "string option"
  msg_reactions :: "(emoji \<times> int) list"

text \<open>
  A \<open>discord.Reaction\<close> as delivered with a reaction-added event: the message, the emoji
  and \<open>count\<close>, the number of times this emoji has been added to the message.
\<close>

record reaction =
  r_message :: message
  r_emoji :: emoji
  r_count :: int

record webhook =
  hook_id :: int
  hook_token :: string

text \<open>The keyword arguments of \<open>hook.send\<close> that vary (\<open>wait\<close> is always true and
  \<open>allowed_mentions\<close> always none).\<close>

record payload =
  p_content :: string
  p_username :: string
  p_avatar_url :: string
  p_embeds :: "embed list"
  p_files :: "dfile list"

text \<open>
  The outbound calls a handler makes, in the order it makes them: \<open>Send c h p\<close> is
  \<open>self.hooks[c].send(...)\<close> with \<open>h\<close> the webhook found there; the other three are the
  methods of a cached message, named by its id.
\<close>

datatype action =
    Send int webhook payload
  | Edit int string "embed list"
  | Delete int
  | AddReaction int emoji

text \<open>
  What the platform answers. The handlers are written against an arbitrary platform:
  each call is a function of its arguments, and an error is the exception the call
  raises. Two sends of the same content through the same webhook give two messages, so
  \<open>hook_send\<close> also takes the number of outbound calls the handler has made before it.
\<close>

record platform =
  to_file :: "attachment \<Rightarrow> bool \<Rightarrow> error + dfile"
  hook_send :: "nat \<Rightarrow> webhook \<Rightarrow> payload \<Rightarrow> error + message"
  msg_edit :: "message \<Rightarrow> string \<Rightarrow> embed list \<Rightarrow> error + message"
  msg_delete :: "message \<Rightarrow> error option"
  add_reaction :: "message \<Rightarrow> emoji \<Rightarrow> error option"

text \<open>Python truthiness of an int and of an optional int.\<close>

definition truthy :: "int \<Rightarrow> bool" where
  "truthy i = (i \<noteq> 0)"

definition truthy_opt :: "int option \<Rightarrow> bool" where
  "truthy_opt x = (case x of None \<Rightarrow> False | Some i \<Rightarrow> truthy i)"

subsection \<open>The FIFO cache\<close>

text \<open>
  Modelled from the spec: the class \<open>FIFOCache\<close> comes from the package cachetools, which
  is not part of the repository. The spec describes it as a fixed-capacity map that
  evicts in insertion order, oldest first. The cache is its capacity (positive) and its
  entries, oldest first.
\<close>

record ('k, 'v) fifo =
  fifo_maxsize :: nat
  fifo_items :: "('k \<times> 'v) list"

text \<open>Modelled from the spec: \<open>FIFOCache(maxsize=n)\<close>, an empty cache of capacity \<open>n\<close>.\<close>

definition fifo_new :: "nat \<Rightarrow> ('k, 'v) fifo" where
  "fifo_new n = \<lparr>fifo_maxsize = n, fifo_items = []\<rparr>"

text \<open>Modelled from the spec: the keys of the cache, oldest first.\<close>

definition fifo_keys :: "('k, 'v) fifo \<Rightarrow> 'k list" where
  "fifo_keys c = map fst (fifo_items c)"

text \<open>Modelled from the spec: \<open>cache.get(k, None)\<close>, a lookup that is absent on a miss
  and leaves the cache and its order as they are.\<close>

definition fifo_get :: "('k, 'v) fifo \<Rightarrow> 'k \<Rightarrow> 'v option" where
  "fifo_get c k = map_of (fifo_items c) k"

text \<open>Modelled from the spec: \<open>del cache[k]\<close> for a key that is present.\<close>

definition fifo_del :: "('k, 'v) fifo \<Rightarrow> 'k \<Rightarrow> ('k, 'v) fifo" where
  "fifo_del c k = c\<lparr>fifo_items := filter (\<lambda>kv. fst kv \<noteq> k) (fifo_items c)\<rparr>"

text \<open>Modelled from the spec: \<open>cache.pop(k, d)\<close>, which removes the entry and returns its
  value, or returns \<open>d\<close> and changes nothing when the key is absent.\<close>

definition fifo_pop :: "('k, 'v) fifo \<Rightarrow> 'k \<Rightarrow> 'v \<Rightarrow> 'v \<times> ('k, 'v) fifo" where
  "fifo_pop c k d = (case fifo_get c k of None \<Rightarrow> (d, c) | Some v \<Rightarrow> (v, fifo_del c k))"

text \<open>
  Modelled from the spec: \<open>cache[k] = v\<close>. A new key is appended as the youngest entry,
  after the oldest entries have been evicted until there is room for it; a key already
  present is overwritten, evicts nothing and becomes the youngest entry.
\<close>

definition fifo_set :: "('k, 'v) fifo \<Rightarrow> 'k \<Rightarrow> 'v \<Rightarrow> ('k, 'v) fifo" where
  "fifo_set c k v =
     (if k \<in> set (fifo_keys c)
      then c\<lparr>fifo_items := filter (\<lambda>kv. fst kv \<noteq> k) (fifo_items c) @ [(k, v)]\<rparr>
      else c\<lparr>fifo_items :=
               drop (Suc (length (fifo_items c)) - fifo_maxsize c) (fifo_items c) @ [(k, v)]\<rparr>)"

subsection \<open>The cog\<close>

text \<open>
  The attributes of \<open>VoiceFixCog\<close>: \<open>link_channels\<close> maps a link id to the tuple of its
  channel ids, \<open>channel_links\<close> a channel id to the tuple of its link ids, \<open>hooks\<close> a
  channel id to its webhook; \<open>message_cache\<close> maps the id of an original message to the
  list of (channel id, message) pairs of its copies, and \<open>wmessages\<close> maps the id of a
  copy to the id of its original.
\<close>

record engine =
  link_channels :: "int \<rightharpoonup> int list"
  channel_links :: "int \<rightharpoonup> int list"
  hooks :: "int \<rightharpoonup> webhook"
  message_cache :: "(int, (int \<times> message) list) fifo"
  wmessages :: "(int, int) fifo"

text \<open>\<open>VoiceFixCog.__init__\<close>\<close>

definition new_cog :: engine where
  "new_cog =
     \<lparr>link_channels = Map.empty, channel_links = Map.empty, hooks = Map.empty,
      message_cache = fifo_new 200, wmessages = fifo_new 600\<rparr>"

subsection \<open>Preparing the content of a copy\<close>

text \<open>\<open>prepare_attachments\<close>: an attachment whose download raises an \<open>HTTPException\<close> is left
  out; any other exception leaves the function.\<close>

fun prepare_attachments :: "platform \<Rightarrow> attachment list \<Rightarrow> error + dfile list" where
  "prepare_attachments P [] = Inr []"
| "prepare_attachments P (a # as) =
     (case to_file P a (att_spoiler a) of
        Inr f \<Rightarrow>
          (case prepare_attachments P as of Inl e \<Rightarrow> Inl e | Inr fs \<Rightarrow> Inr (f # fs))
      | Inl e \<Rightarrow> if is_HTTPException e then prepare_attachments P as else Inl e)"

text \<open>\<open>prepare_embeds\<close>: the rich embeds of the message, and one more when it is a reply.\<close>

definition prepare_embeds :: "message \<Rightarrow> embed list" where
  "prepare_embeds m =
     (let embeds = filter (\<lambda>e. embed_type e = ''rich'') (msg_embeds m)
      in case msg_reference m of
           None \<Rightarrow> embeds
         | Some jump_url \<Rightarrow>
             embeds @ [\<lparr>embed_type = ''rich'', embed_colour = Some Dark_gray,
                        embed_description = ''Reply to '' @ jump_url\<rparr>])"

text \<open>\<open>message.author.avatar or message.author.default_avatar\<close>, then its url. An asset
  is falsy when its url is empty.\<close>

definition avatar_url :: "author \<Rightarrow> string" where
  "avatar_url a =
     (case avatar a of
        None \<Rightarrow> default_avatar a
      | Some u \<Rightarrow> if u = [] then default_avatar a else u)"

definition make_payload :: "message \<Rightarrow> dfile list \<Rightarrow> payload" where
  "make_payload m files =
     \<lparr>p_content = msg_content m, p_username = display_name (msg_author m),
      p_avatar_url = avatar_url (msg_author m), p_embeds = prepare_embeds m,
      p_files = files\<rparr>"

subsection \<open>\<open>on_message\<close>\<close>

text \<open>
  The state of the two nested loops of \<open>on_message\<close>: the cog (the loop writes
  \<open>self.wmessages\<close>), the list \<open>sent\<close>, the outbound calls made so far, and the exception
  that has left the loop, if any.
\<close>

record fanout =
  fo_engine :: engine
  fo_sent :: "(int \<times> message) list"
  fo_calls :: "action list"
  fo_raised :: "error option"

text \<open>The inner loop, \<open>for channelid in self.link_channels[linkid]\<close>.\<close>

fun send_channels :: "platform \<Rightarrow> message \<Rightarrow> int list \<Rightarrow> fanout \<Rightarrow> fanout" where
  "send_channels P m [] s = s"
| "send_channels P m (c # cs) s =
     (if c \<noteq> msg_channel m then
        (case (if msg_attachments m \<noteq> [] then prepare_attachments P (msg_attachments m)
               else Inr []) of
           Inl e \<Rightarrow> s\<lparr>fo_raised := Some e\<rparr>
         | Inr files \<Rightarrow>
             (case hooks (fo_engine s) c of
                None \<Rightarrow> s\<lparr>fo_raised := Some KeyError\<rparr>
              | Some hook \<Rightarrow>
                  (case hook_send P (length (fo_calls s)) hook (make_payload m files) of
                     Inl e \<Rightarrow>
                       s\<lparr>fo_calls := fo_calls s @ [Send c hook (make_payload m files)],
                         fo_raised := Some e\<rparr>
                   | Inr msg \<Rightarrow>
                       send_channels P m cs
                         (s\<lparr>fo_engine := (fo_engine s)
                               \<lparr>wmessages :=
                                  fifo_set (wmessages (fo_engine s)) (msg_id msg) (msg_id m)\<rparr>,
                            fo_sent := fo_sent s @ [(c, msg)],
                            fo_calls := fo_calls s @ [Send c hook (make_payload m files)]\<rparr>))))
      else send_channels P m cs s)"

text \<open>The outer loop, \<open>for linkid in linkids\<close>.\<close>

fun send_links :: "platform \<Rightarrow> message \<Rightarrow> int list \<Rightarrow> fanout \<Rightarrow> fanout" where
  "send_links P m [] s = s"
| "send_links P m (l # ls) s =
     (case link_channels (fo_engine s) l of
        None \<Rightarrow> s\<lparr>fo_raised := Some KeyError\<rparr>
      | Some cs \<Rightarrow>
          (case fo_raised (send_channels P m cs s) of
             Some e \<Rightarrow> send_channels P m cs s
           | None \<Rightarrow> send_links P m ls (send_channels P m cs s)))"

text \<open>
  A handler returns the cog as it leaves it, the outbound calls it made, and the
  exception it raised (\<open>None\<close> when it returns normally).
\<close>

type_synonym outcome = "engine \<times> action list \<times> error option"

definition on_message :: "platform \<Rightarrow> engine \<Rightarrow> message \<Rightarrow> outcome" where
  "on_message P st m =
     (if truthy_opt (msg_webhook_id m) then (st, [], None)
      else
        (let linkids = (case channel_links st (msg_channel m) of None \<Rightarrow> [] | Some ls \<Rightarrow> ls)
         in if linkids \<noteq> [] then
              (let s = send_links P m linkids
                         \<lparr>fo_engine = st, fo_sent = [], fo_calls = [], fo_raised = None\<rparr>
               in case fo_raised s of
                    Some e \<Rightarrow> (fo_engine s, fo_calls s, Some e)
                  | None \<Rightarrow>
                      if fo_sent s \<noteq> [] then
                        ((fo_engine s)
                           \<lparr>wmessages := fifo_set (wmessages (fo_engine s)) (msg_id m) (msg_id m),
                            message_cache :=
                              fifo_set (message_cache (fo_engine s)) (msg_id m)
                                (fo_sent s @ [(msg_channel m, m)])\<rparr>,
                         fo_calls s, None)
                      else (fo_engine s, fo_calls s, None))
            else (st, [], None)))"

subsection \<open>\<open>on_message_edit\<close>\<close>

record edits =
  ed_new_sent :: "(int \<times> message) list"
  ed_calls :: "action list"
  ed_raised :: "error option"

text \<open>The loop of \<open>on_message_edit\<close>; only \<open>NotFound\<close> is caught.\<close>

fun edit_copies ::
  "platform \<Rightarrow> message \<Rightarrow> message \<Rightarrow> (int \<times> message) list \<Rightarrow> edits \<Rightarrow> edits" where
  "edit_copies P before after [] s = s"
| "edit_copies P before after ((cid, msg) # rest) s =
     (if msg_id msg \<noteq> msg_id before then
        (case msg_edit P msg (msg_content after) (prepare_embeds after) of
           Inr msg' \<Rightarrow>
             edit_copies P before after rest
               (s\<lparr>ed_new_sent := ed_new_sent s @ [(cid, msg')],
                  ed_calls :=
                    ed_calls s @ [Edit (msg_id msg) (msg_content after) (prepare_embeds after)]\<rparr>)
         | Inl e \<Rightarrow>
             if is_NotFound e then
               edit_copies P before after rest
                 (s\<lparr>ed_calls :=
                      ed_calls s @ [Edit (msg_id msg) (msg_content after) (prepare_embeds after)]\<rparr>)
             else
               s\<lparr>ed_calls :=
                   ed_calls s @ [Edit (msg_id msg) (msg_content after) (prepare_embeds after)],
                 ed_raised := Some e\<rparr>)
      else edit_copies P before after rest (s\<lparr>ed_new_sent := ed_new_sent s @ [(cid, msg)]\<rparr>))"

definition on_message_edit :: "platform \<Rightarrow> engine \<Rightarrow> message \<Rightarrow> message \<Rightarrow> outcome" where
  "on_message_edit P st before after =
     (let (cached_sent, mc) = fifo_pop (message_cache st) (msg_id before) [];
          s = edit_copies P before after cached_sent
                \<lparr>ed_new_sent = [], ed_calls = [], ed_raised = None\<rparr>
      in case ed_raised s of
           Some e \<Rightarrow> (st\<lparr>message_cache := mc\<rparr>, ed_calls s, Some e)
         | None \<Rightarrow>
             if ed_new_sent s \<noteq> [] then
               (st\<lparr>message_cache := fifo_set mc (msg_id after) (ed_new_sent s)\<rparr>, ed_calls s, None)
             else (st\<lparr>message_cache := mc\<rparr>, ed_calls s, None))"

subsection \<open>\<open>on_message_delete\<close>\<close>

text \<open>The loop of \<open>on_message_delete\<close> over the calls made so far and the exception
  raised; only \<open>NotFound\<close> is caught.\<close>

fun delete_copies ::
  "platform \<Rightarrow> message \<Rightarrow> (int \<times> message) list \<Rightarrow> action list \<times> error option \<Rightarrow>
   action list \<times> error option" where
  "delete_copies P m [] s = s"
| "delete_copies P m ((cid, msg) # rest) (calls, raised) =
     (if msg_id msg \<noteq> msg_id m then
        (case msg_delete P msg of
           None \<Rightarrow> delete_copies P m rest (calls @ [Delete (msg_id msg)], raised)
         | Some e \<Rightarrow>
             if is_NotFound e then delete_copies P m rest (calls @ [Delete (msg_id msg)], raised)
             else (calls @ [Delete (msg_id msg)], Some e))
      else delete_copies P m rest (calls, raised))"

definition on_message_delete :: "platform \<Rightarrow> engine \<Rightarrow> message \<Rightarrow> outcome" where
  "on_message_delete P st m =
     (case fifo_get (wmessages st) (msg_id m) of
        None \<Rightarrow> (st, [], None)
      | Some origid \<Rightarrow>
          if truthy origid then
            (let (cached_sent, mc) = fifo_pop (message_cache st) origid [];
                 (calls, raised) = delete_copies P m cached_sent ([], None)
             in (st\<lparr>message_cache := mc\<rparr>, calls, raised))
          else (st, [], None))"

subsection \<open>\<open>on_reaction_add\<close>\<close>

text \<open>The loop of \<open>on_reaction_add\<close>; every \<open>HTTPException\<close> is caught.\<close>

fun react_copies ::
  "platform \<Rightarrow> message \<Rightarrow> emoji \<Rightarrow> (int \<times> message) list \<Rightarrow> action list \<times> error option \<Rightarrow>
   action list \<times> error option" where
  "react_copies P m emo [] s = s"
| "react_copies P m emo ((cid, msg) # rest) (calls, raised) =
     (if msg_id msg \<noteq> msg_id m then
        (case add_reaction P msg emo of
           None \<Rightarrow> react_copies P m emo rest (calls @ [AddReaction (msg_id msg) emo], raised)
         | Some e \<Rightarrow>
             if is_HTTPException e
             then react_copies P m emo rest (calls @ [AddReaction (msg_id msg) emo], raised)
             else (calls @ [AddReaction (msg_id msg) emo], Some e))
      else react_copies P m emo rest (calls, raised))"

definition on_reaction_add :: "platform \<Rightarrow> engine \<Rightarrow> reaction \<Rightarrow> outcome" where
  "on_reaction_add P st r =
     (let message = r_message r; emo = r_emoji r
      in case fifo_get (wmessages st) (msg_id message) of
           None \<Rightarrow> (st, [], None)
         | Some origid \<Rightarrow>
             if truthy origid \<and> r_count r = 1 then
               (let cached_sent =
                      (case fifo_get (message_cache st) origid of None \<Rightarrow> [] | Some l \<Rightarrow> l);
                    (calls, raised) = react_copies P message emo cached_sent ([], None)
                in (st, calls, raised))
             else (st, [], None))"

subsection \<open>\<open>reload_links\<close> and \<open>fetch_webhook_for\<close>\<close>

text \<open>
  What the data layer and the bot answer during a reload: \<open>select_where\<close> is the bulk
  fetch of the rows (linkid, channelid) of the table \<open>channel_links\<close>, \<open>fetch_where\<close> the
  bulk fetch of the webhook rows of the given channels, \<open>hook_fetch\<close> is
  \<open>LinkHook.fetch\<close>, \<open>get_channel\<close> tells whether \<open>bot.get_channel\<close> finds the channel,
  \<open>create_webhook\<close> is \<open>channel.create_webhook\<close> and \<open>hook_create\<close> is \<open>LinkHook.create\<close>.

  \<open>tuple_of\<close> is the interpreter's part: \<open>tuple(s)\<close> for a set \<open>s\<close>, given the elements of
  \<open>s\<close> in the order they were added. Python enumerates a set in the order of its hash
  table, which depends on the values and which the language leaves open, so the order is
  taken from the surroundings and not fixed by the model.
\<close>

record hook_row =
  row_channelid :: int
  row_webhookid :: int
  row_token :: string

record backend =
  select_where :: "error + (int \<times> int) list"
  fetch_where :: "int list \<Rightarrow> error option"
  hook_fetch :: "int \<Rightarrow> error + hook_row option"
  get_channel :: "int \<Rightarrow> bool"
  create_webhook :: "int \<Rightarrow> error + webhook"
  hook_create :: "int \<Rightarrow> int \<Rightarrow> string \<Rightarrow> error option"
  tuple_of :: "int list \<Rightarrow> int list"

definition fetch_webhook_for :: "backend \<Rightarrow> engine \<Rightarrow> int \<Rightarrow> engine \<times> (error + webhook)" where
  "fetch_webhook_for D st channelid =
     (case hooks st channelid of
        Some hook \<Rightarrow> (st, Inr hook)
      | None \<Rightarrow>
          (case hook_fetch D channelid of
             Inl e \<Rightarrow> (st, Inl e)
           | Inr None \<Rightarrow>
               if \<not> get_channel D channelid then (st, Inl ValueError)
               else
                 (case create_webhook D channelid of
                    Inl e \<Rightarrow> (st, Inl e)
                  | Inr hook \<Rightarrow>
                      (case hook_create D channelid (hook_id hook) (hook_token hook) of
                         Some e \<Rightarrow> (st, Inl e)
                       | None \<Rightarrow> (st\<lparr>hooks := (hooks st)(channelid \<mapsto> hook)\<rparr>, Inr hook)))
           | Inr (Some row) \<Rightarrow>
               (st\<lparr>hooks := (hooks st)(channelid \<mapsto>
                      \<lparr>hook_id = row_webhookid row, hook_token = row_token row\<rparr>)\<rparr>,
                Inr \<lparr>hook_id = row_webhookid row, hook_token = row_token row\<rparr>)))"

text \<open>
  \<open>d[k].add(v)\<close> on a \<open>defaultdict(set)\<close>. The dict keeps its keys in insertion order.
  A set is held as the list of its elements, each once, in the order they were added;
  that list only records what the set contains, and the order in which the set is
  enumerated later is \<open>tuple_of\<close>'s.
\<close>

fun add_member :: "int \<Rightarrow> int \<Rightarrow> (int \<times> int list) list \<Rightarrow> (int \<times> int list) list" where
  "add_member k v [] = [(k, [v])]"
| "add_member k v ((k', vs) # d) =
     (if k' = k then (k', if v \<in> set vs then vs else vs @ [v]) # d
      else (k', vs) # add_member k v d)"

text \<open>The loop over the records, on the pair (\<open>channel_links\<close>, \<open>link_channels\<close>).\<close>

fun index_records ::
  "(int \<times> int) list \<Rightarrow> (int \<times> int list) list \<times> (int \<times> int list) list \<Rightarrow>
   (int \<times> int list) list \<times> (int \<times> int list) list" where
  "index_records [] acc = acc"
| "index_records ((linkid, channelid) # records) (cl, lc) =
     index_records records (add_member channelid linkid cl, add_member linkid channelid lc)"

text \<open>The loop \<open>for channelid in channelids: await self.fetch_webhook_for(channelid)\<close>.\<close>

fun fetch_webhooks :: "backend \<Rightarrow> int list \<Rightarrow> engine \<Rightarrow> engine \<times> error option" where
  "fetch_webhooks D [] st = (st, None)"
| "fetch_webhooks D (c # cs) st =
     (case fetch_webhook_for D st c of
        (st', Inl e) \<Rightarrow> (st', Some e)
      | (st', Inr hook) \<Rightarrow> fetch_webhooks D cs st')"

text \<open>\<open>{k: tuple(vs) for k, vs in d.items()}\<close>\<close>

definition as_tuples :: "backend \<Rightarrow> (int \<times> int list) list \<Rightarrow> (int \<times> int list) list" where
  "as_tuples D d = map (\<lambda>(k, vs). (k, tuple_of D vs)) d"

definition reload_links :: "backend \<Rightarrow> engine \<Rightarrow> engine \<times> error option" where
  "reload_links D st =
     (case select_where D of
        Inl e \<Rightarrow> (st, Some e)
      | Inr records \<Rightarrow>
          (let (cl, lc) = index_records records ([], []);
               channelids = map fst cl
           in case (if channelids \<noteq> [] then fetch_where D channelids else None) of
                Some e \<Rightarrow> (st, Some e)
              | None \<Rightarrow>
                  (case fetch_webhooks D channelids st of
                     (st', Some e) \<Rightarrow> (st', Some e)
                   | (st', None) \<Rightarrow>
                       (st'\<lparr>channel_links := map_of (as_tuples D cl),
                            link_channels := map_of (as_tuples D lc)\<rparr>, None))))"

subsection \<open>Sequences of events\<close>

datatype event =
    NewMessage message
  | MessageEdit message message
  | MessageDelete message
  | ReactionAdd reaction

fun handle :: "platform \<Rightarrow> engine \<Rightarrow> event \<Rightarrow> outcome" where
  "handle P st (NewMessage m) = on_message P st m"
| "handle P st (MessageEdit before after) = on_message_edit P st before after"
| "handle P st (MessageDelete m) = on_message_delete P st m"
| "handle P st (ReactionAdd r) = on_reaction_add P st r"

text \<open>
  The cog after a sequence of events, each with the platform's answers during its
  handler. An exception leaves the handler and the cog stays as the handler left it.
\<close>

fun run :: "engine \<Rightarrow> (platform \<times> event) list \<Rightarrow> engine" where
  "run st [] = st"
| "run st ((P, ev) # evs) = run (fst (handle P st ev)) evs"

subsection \<open>Notions used in the statements\<close>

text \<open>\<open>self.channel_links.get(c, ())\<close> and the channels of a link.\<close>

definition links_of :: "engine \<Rightarrow> int \<Rightarrow> int list" where
  "links_of st c = (case channel_links st c of None \<Rightarrow> [] | Some ls \<Rightarrow> ls)"

definition link_members :: "engine \<Rightarrow> int \<Rightarrow> int list" where
  "link_members st l = (case link_channels st l of None \<Rightarrow> [] | Some cs \<Rightarrow> cs)"

text \<open>
  The channels a message is to be copied to: link by link, the members of each link of
  the message's channel, without that channel. A channel that two of these links share
  stands in the list twice.
\<close>

definition fanout_targets :: "engine \<Rightarrow> message \<Rightarrow> int list" where
  "fanout_targets st m =
     concat (map (\<lambda>l. filter (\<lambda>c. c \<noteq> msg_channel m) (link_members st l))
               (links_of st (msg_channel m)))"

text \<open>The state in which the two loops of \<open>on_message\<close> end.\<close>

definition fanned :: "platform \<Rightarrow> engine \<Rightarrow> message \<Rightarrow> fanout" where
  "fanned P st m =
     send_links P m (links_of st (msg_channel m))
       \<lparr>fo_engine = st, fo_sent = [], fo_calls = [], fo_raised = None\<rparr>"

text \<open>The files that go out with a copy of the message.\<close>

definition attached_files :: "platform \<Rightarrow> message \<Rightarrow> dfile list" where
  "attached_files P m =
     (case (if msg_attachments m \<noteq> [] then prepare_attachments P (msg_attachments m)
            else Inr []) of
        Inl e \<Rightarrow> []
      | Inr files \<Rightarrow> files)"

text \<open>How many sends through the webhook of channel \<open>c\<close> a list of calls holds.\<close>

definition copies_posted :: "int \<Rightarrow> action list \<Rightarrow> nat" where
  "copies_posted c calls =
     length (filter (\<lambda>a. case a of Send c' h p \<Rightarrow> c' = c | _ \<Rightarrow> False) calls)"

text \<open>
  The link index as a reload leaves it (a tuple made from a set holds each element once):
  the links of a channel are distinct, each has a tuple of distinct channels, and each
  of those channels has a webhook.
\<close>

definition index_ok :: "engine \<Rightarrow> bool" where
  "index_ok st =
     (\<forall>c ls. channel_links st c = Some ls \<longrightarrow>
        distinct ls \<and>
        (\<forall>l \<in> set ls. \<exists>cs. link_channels st l = Some cs \<and> distinct cs \<and>
           (\<forall>c' \<in> set cs. hooks st c' \<noteq> None)))"

text \<open>Every send succeeds, and a download fails with an \<open>HTTPException\<close> only.\<close>

definition posts_succeed :: "platform \<Rightarrow> bool" where
  "posts_succeed P =
     ((\<forall>n h p. \<exists>msg. hook_send P n h p = Inr msg) \<and>
      (\<forall>a sp e. to_file P a sp = Inl e \<longrightarrow> is_HTTPException e))"

text \<open>The copies recorded for an original, \<open>self.message_cache.get(origid, ())\<close>.\<close>

definition cached_copies :: "engine \<Rightarrow> int \<Rightarrow> (int \<times> message) list" where
  "cached_copies st origid =
     (case fifo_get (message_cache st) origid of None \<Rightarrow> [] | Some l \<Rightarrow> l)"

text \<open>The copies other than the message the event is about.\<close>

definition siblings :: "message \<Rightarrow> (int \<times> message) list \<Rightarrow> message list" where
  "siblings m copies = filter (\<lambda>msg. msg_id msg \<noteq> msg_id m) (map snd copies)"


text \<open>The number of reactions on a message, over all its emoji.\<close>

definition reaction_total :: "message \<Rightarrow> int" where
  "reaction_total m = sum_list (map snd (msg_reactions m))"

text \<open>The keys of the forward cache that a handler run removed.\<close>

definition lost :: "engine \<Rightarrow> engine \<Rightarrow> int set" where
  "lost st st' = set (fifo_keys (message_cache st)) - set (fifo_keys (message_cache st'))"

text \<open>
  Over a sequence of events: the originals whose forward entry left the cache while a
  new message was recorded (\<open>on_message\<close> removes nothing itself, so these are the
  entries the cache evicted to make room), and the originals whose forward entry a
  delete event removed.
\<close>

fun evicted :: "engine \<Rightarrow> (platform \<times> event) list \<Rightarrow> int set" where
  "evicted st [] = {}"
| "evicted st ((P, ev) # evs) =
     (case ev of NewMessage m \<Rightarrow> lost st (fst (handle P st ev)) | _ \<Rightarrow> {})
     \<union> evicted (fst (handle P st ev)) evs"

fun deleted :: "engine \<Rightarrow> (platform \<times> event) list \<Rightarrow> int set" where
  "deleted st [] = {}"
| "deleted st ((P, ev) # evs) =
     (case ev of MessageDelete m \<Rightarrow> lost st (fst (handle P st ev)) | _ \<Rightarrow> {})
     \<union> deleted (fst (handle P st ev)) evs"

text \<open>
  A sequence of events in which no new-message or edit handler raises, and an edit
  keeps the id of the message (as it does on the platform).
\<close>

fun undisturbed :: "engine \<Rightarrow> (platform \<times> event) list \<Rightarrow> bool" where
  "undisturbed st [] = True"
| "undisturbed st ((P, ev) # evs) =
     ((case ev of
         NewMessage m \<Rightarrow> snd (snd (handle P st ev)) = None
       | MessageEdit before after \<Rightarrow>
           snd (snd (handle P st ev)) = None \<and> msg_id after = msg_id before
       | _ \<Rightarrow> True)
      \<and> undisturbed (fst (handle P st ev)) evs)"

text \<open>A cache holds no key twice and no more entries than its capacity.\<close>

definition fifo_ok :: "('k, 'v) fifo \<Rightarrow> bool" where
  "fifo_ok c = (distinct (fifo_keys c) \<and> length (fifo_items c) \<le> fifo_maxsize c)"

text \<open>
  The reverse cache is backed up to the set \<open>gone\<close>: the original of every entry is a key
  of the forward cache or is in \<open>gone\<close>.
\<close>

definition correlated :: "int set \<Rightarrow> engine \<Rightarrow> bool" where
  "correlated gone st =
     (\<forall>kv \<in> set (fifo_items (wmessages st)).
        snd kv \<in> set (fifo_keys (message_cache st)) \<or> snd kv \<in> gone)"

text \<open>Every list of copies in the forward cache holds the original itself.\<close>

definition self_listed :: "engine \<Rightarrow> bool" where
  "self_listed st =
     (\<forall>kv \<in> set (fifo_items (message_cache st)). \<exists>cm \<in> set (snd kv). msg_id (snd cm) = fst kv)"

definition cache_inv :: "int set \<Rightarrow> engine \<Rightarrow> bool" where
  "cache_inv gone st =
     (correlated gone st \<and> self_listed st \<and> fifo_ok (message_cache st) \<and>
      0 < fifo_maxsize (message_cache st))"

text \<open>The caches are as \<open>__init__\<close> made them.\<close>

definition caches_fresh :: "engine \<Rightarrow> bool" where
  "caches_fresh st = (message_cache st = fifo_new 200 \<and> wmessages st = fifo_new 600)"

subsection \<open>Example values\<close>

definition ex_author :: author where
  "ex_author = \<lparr>display_name = ''ann'', avatar = None, default_avatar = ''0.png''\<rparr>"

definition ex_message :: "int \<Rightarrow> int \<Rightarrow> message" where
  "ex_message i c =
     \<lparr>msg_id = i, msg_channel = c, msg_content = ''hello'', msg_webhook_id = None,
      msg_author = ex_author, msg_attachments = [], msg_embeds = [], msg_reference = None,
      msg_reactions = []\<rparr>"

text \<open>The message the webhook \<open>h\<close> posts as the \<open>n\<close>-th call of a handler: it gets the
  id \<open>100 + n\<close>.\<close>

definition ex_copy :: "nat \<Rightarrow> webhook \<Rightarrow> payload \<Rightarrow> message" where
  "ex_copy n h p =
     \<lparr>msg_id = 100 + int n, msg_channel = hook_id h - 1000, msg_content = p_content p,
      msg_webhook_id = Some (hook_id h),
      msg_author = \<lparr>display_name = p_username p, avatar = Some (p_avatar_url p),
                    default_avatar = ''0.png''\<rparr>,
      msg_attachments = [], msg_embeds = p_embeds p, msg_reference = None,
      msg_reactions = []\<rparr>"

text \<open>A platform on which every call succeeds.\<close>

definition ex_platform :: platform where
  "ex_platform =
     \<lparr>to_file = (\<lambda>a sp. Inr \<lparr>file_name = att_filename a, file_spoiler = sp\<rparr>),
      hook_send = (\<lambda>n h p. Inr (ex_copy n h p)),
      msg_edit = (\<lambda>msg c es. Inr (msg\<lparr>msg_content := c, msg_embeds := es\<rparr>)),
      msg_delete = (\<lambda>msg. None),
      add_reaction = (\<lambda>msg emo. None)\<rparr>"

text \<open>A platform that rejects every post through the webhook 1002, and on which the
  message 101 is gone.\<close>

definition ex_platform_rejecting :: platform where
  "ex_platform_rejecting =
     \<lparr>to_file = (\<lambda>a sp. Inr \<lparr>file_name = att_filename a, file_spoiler = sp\<rparr>),
      hook_send = (\<lambda>n h p. if hook_id h = 1002 then Inl HTTPException else Inr (ex_copy n h p)),
      msg_edit = (\<lambda>msg c es. if msg_id msg = 101 then Inl NotFound
                               else Inr (msg\<lparr>msg_content := c, msg_embeds := es\<rparr>)),
      msg_delete = (\<lambda>msg. if msg_id msg = 101 then Some NotFound else None),
      add_reaction = (\<lambda>msg emo. if msg_id msg = 101 then Some NotFound else None)\<rparr>"


text \<open>A database with the given membership rows, in which the channel \<open>c\<close> has the
  webhook \<open>1000 + c\<close>; and one that cannot be reached. The sets of the examples hold at
  most three small ids, which CPython enumerates by their slot in a table of eight, that
  is by the id modulo 8.\<close>

definition ex_backend :: "(int \<times> int) list \<Rightarrow> backend" where
  "ex_backend rows =
     \<lparr>select_where = Inr rows,
      fetch_where = (\<lambda>cs. None),
      hook_fetch = (\<lambda>c. Inr (Some \<lparr>row_channelid = c, row_webhookid = 1000 + c,
                                      row_token = ''t''\<rparr>)),
      get_channel = (\<lambda>c. True),
      create_webhook = (\<lambda>c. Inr \<lparr>hook_id = 1000 + c, hook_token = ''t''\<rparr>),
      hook_create = (\<lambda>c w t. None),
      tuple_of = sort_key (\<lambda>i. i mod 8)\<rparr>"

definition ex_backend_down :: backend where
  "ex_backend_down = (ex_backend [])\<lparr>select_where := Inl StorageError\<rparr>"

text \<open>The cog after loading the link 7 with the channels 1, 2 and 3; and after loading
  the links 7 and 8, both with the channels 1 and 2.\<close>

definition ex_cog :: engine where
  "ex_cog = fst (reload_links (ex_backend [(7, 1), (7, 2), (7, 3)]) new_cog)"

definition ex_cog_two_links :: engine where
  "ex_cog_two_links = fst (reload_links (ex_backend [(7, 1), (7, 2), (8, 1), (8, 2)]) new_cog)"

text \<open>The cog \<open>ex_cog\<close> after the message 10 was posted in the channel 1 and copied as the
  messages 100 and 101 into the channels 2 and 3.\<close>

definition ex_cog_sent :: engine where
  "ex_cog_sent = fst (on_message ex_platform ex_cog (ex_message 10 1))"

text \<open>The message 10 already carries one thumbs-up; the event is the first tada on it, its
  second reaction.\<close>

definition ex_second_reaction :: reaction where
  "ex_second_reaction =
     \<lparr>r_message = (ex_message 10 1)\<lparr>msg_reactions := [(''thumbsup'', 1), (''tada'', 1)]\<rparr>,
      r_emoji = ''tada'', r_count = 1\<rparr>"

section \<open>Properties\<close>

subsection \<open>The FIFO cache\<close>

lemma map_of_filter_key:
  "map_of (filter (\<lambda>kv. fst kv \<noteq> k) xs) k' = (if k' = k then None else map_of xs k')"
  by (induction xs) auto

lemma map_of_snoc_fresh: "k \<notin> fst ` set xs \<Longrightarrow> map_of (xs @ [(k, v)]) k = Some v"
  by (induction xs) auto

lemma fifo_get_set_same: "fifo_get (fifo_set c k v) k = Some v"
proof (cases "k \<in> set (fifo_keys c)")
  case True
  have "k \<notin> fst ` set (filter (\<lambda>kv. fst kv \<noteq> k) (fifo_items c))" by auto
  with True show ?thesis
    by (simp add: fifo_get_def fifo_set_def map_of_snoc_fresh del: map_of_append)
next
  case False
  then have "k \<notin> fst ` set (drop (Suc (length (fifo_items c)) - fifo_maxsize c) (fifo_items c))"
    by (auto simp: fifo_keys_def dest: in_set_dropD)
  with False show ?thesis
    by (simp add: fifo_get_def fifo_set_def map_of_snoc_fresh del: map_of_append)
qed

lemma fifo_get_del: "fifo_get (fifo_del c k) k' = (if k' = k then None else fifo_get c k')"
  by (simp add: fifo_get_def fifo_del_def map_of_filter_key)

lemma fifo_items_set_subset:
  "set (fifo_items (fifo_set c k v)) \<subseteq> insert (k, v) (set (fifo_items c))"
  by (auto simp: fifo_set_def dest: in_set_dropD)

lemma fifo_items_del_subset: "set (fifo_items (fifo_del c k)) \<subseteq> set (fifo_items c)"
  by (auto simp: fifo_del_def)

lemma fifo_key_set: "k \<in> set (fifo_keys (fifo_set c k v))"
  by (simp add: fifo_set_def fifo_keys_def)

lemma fifo_keys_del: "set (fifo_keys (fifo_del c k)) = set (fifo_keys c) - {k}"
  by (auto simp: fifo_del_def fifo_keys_def)

lemma fifo_maxsize_set: "fifo_maxsize (fifo_set c k v) = fifo_maxsize c"
  by (simp add: fifo_set_def)

lemma fifo_maxsize_del: "fifo_maxsize (fifo_del c k) = fifo_maxsize c"
  by (simp add: fifo_del_def)

lemma fifo_get_None_iff: "fifo_get c k = None \<longleftrightarrow> k \<notin> set (fifo_keys c)"
  by (simp add: fifo_get_def fifo_keys_def map_of_eq_None_iff)

lemma fifo_get_in_items: "fifo_get c k = Some v \<Longrightarrow> (k, v) \<in> set (fifo_items c)"
  by (simp add: fifo_get_def map_of_SomeD)

lemma distinct_keys_filter: "distinct (map fst xs) \<Longrightarrow> distinct (map fst (filter Q xs))"
  by (induction xs) auto

lemma distinct_keys_drop: "distinct (map fst xs) \<Longrightarrow> distinct (map fst (drop n xs))"
  by (simp add: drop_map[symmetric])

lemma length_filter_key:
  "k \<in> fst ` set xs \<Longrightarrow> Suc (length (filter (\<lambda>kv. fst kv \<noteq> k) xs)) \<le> length xs"
  by (induction xs) (auto simp: le_SucI)

lemma fifo_ok_set:
  assumes "fifo_ok c" and "0 < fifo_maxsize c"
  shows "fifo_ok (fifo_set c k v)"
proof (cases "k \<in> set (fifo_keys c)")
  case True
  then have "Suc (length (filter (\<lambda>kv. fst kv \<noteq> k) (fifo_items c))) \<le> length (fifo_items c)"
    by (simp add: fifo_keys_def length_filter_key)
  with assms True show ?thesis
    by (auto simp: fifo_ok_def fifo_set_def fifo_keys_def distinct_keys_filter)
next
  case False
  with assms show ?thesis
    by (auto simp: fifo_ok_def fifo_set_def fifo_keys_def distinct_keys_drop dest: in_set_dropD)
qed

lemma fifo_ok_del: "fifo_ok c \<Longrightarrow> fifo_ok (fifo_del c k)"
  by (auto simp: fifo_ok_def fifo_del_def fifo_keys_def distinct_keys_filter
      intro: le_trans[OF length_filter_le])

lemma fifo_keys_reinsert:
  assumes "fifo_ok c" and "k \<in> set (fifo_keys c)"
  shows "set (fifo_keys (fifo_set (fifo_del c k) k v)) = set (fifo_keys c)"
proof -
  from assms(2) have "Suc (length (filter (\<lambda>kv. fst kv \<noteq> k) (fifo_items c))) \<le> length (fifo_items c)"
    by (simp add: fifo_keys_def length_filter_key)
  with assms(1) have room: "Suc (length (fifo_items (fifo_del c k))) - fifo_maxsize (fifo_del c k) = 0"
    by (simp add: fifo_ok_def fifo_del_def)
  have "k \<notin> set (fifo_keys (fifo_del c k))"
    by (simp add: fifo_keys_del)
  with room have "fifo_keys (fifo_set (fifo_del c k) k v) = fifo_keys (fifo_del c k) @ [k]"
    by (simp add: fifo_set_def fifo_keys_def)
  with assms(2) show ?thesis
    by (auto simp: fifo_keys_del)
qed

lemma fifo_set_full:
  assumes "length (fifo_items c) = fifo_maxsize c" "0 < fifo_maxsize c"
    "k \<notin> set (fifo_keys c)"
  shows "fifo_items (fifo_set c k v) = tl (fifo_items c) @ [(k, v)]"
  using assms by (simp add: fifo_set_def drop_Suc)

lemma fifo_set_room:
  assumes "length (fifo_items c) < fifo_maxsize c" "k \<notin> set (fifo_keys c)"
  shows "fifo_items (fifo_set c k v) = fifo_items c @ [(k, v)]"
  using assms by (simp add: fifo_set_def)

subsection \<open>The example cogs\<close>

lemma ex_cog_simps:
  "channel_links ex_cog = map_of [(1, [7]), (2, [7]), (3, [7])]"
  "link_channels ex_cog = map_of [(7, [1, 2, 3])]"
  "hooks ex_cog = [1 \<mapsto> \<lparr>hook_id = 1001, hook_token = ''t''\<rparr>,
                   2 \<mapsto> \<lparr>hook_id = 1002, hook_token = ''t''\<rparr>,
                   3 \<mapsto> \<lparr>hook_id = 1003, hook_token = ''t''\<rparr>]"
  "message_cache ex_cog = fifo_new 200"
  "wmessages ex_cog = fifo_new 600"
  by (simp_all add: ex_cog_def reload_links_def ex_backend_def new_cog_def fetch_webhook_for_def
        as_tuples_def)

lemma ex_cog_two_links_simps:
  "channel_links ex_cog_two_links = map_of [(1, [8, 7]), (2, [8, 7])]"
  "link_channels ex_cog_two_links = map_of [(7, [1, 2]), (8, [1, 2])]"
  "hooks ex_cog_two_links = [1 \<mapsto> \<lparr>hook_id = 1001, hook_token = ''t''\<rparr>,
                             2 \<mapsto> \<lparr>hook_id = 1002, hook_token = ''t''\<rparr>]"
  "message_cache ex_cog_two_links = fifo_new 200"
  "wmessages ex_cog_two_links = fifo_new 600"
  by (simp_all add: ex_cog_two_links_def reload_links_def ex_backend_def new_cog_def
        fetch_webhook_for_def as_tuples_def)

lemma ex_message_simps:
  "msg_id (ex_message i c) = i" "msg_channel (ex_message i c) = c"
  "msg_webhook_id (ex_message i c) = None" "msg_attachments (ex_message i c) = []"
  by (simp_all add: ex_message_def)

lemma ex_copy_id: "msg_id (ex_copy n h p) = 100 + int n"
  by (simp add: ex_copy_def)

lemma ex_platform_simps:
  "hook_send ex_platform n h p = Inr (ex_copy n h p)"
  "msg_delete ex_platform msg = None"
  "add_reaction ex_platform msg emo = None"
  "msg_edit ex_platform msg c es = Inr (msg\<lparr>msg_content := c, msg_embeds := es\<rparr>)"
  by (simp_all add: ex_platform_def)

lemma ex_platform_rejecting_simps:
  "hook_send ex_platform_rejecting n h p =
     (if hook_id h = 1002 then Inl HTTPException else Inr (ex_copy n h p))"
  "msg_delete ex_platform_rejecting msg = (if msg_id msg = 101 then Some NotFound else None)"
  "add_reaction ex_platform_rejecting msg emo = (if msg_id msg = 101 then Some NotFound else None)"
  "msg_edit ex_platform_rejecting msg c es =
     (if msg_id msg = 101 then Inl NotFound else Inr (msg\<lparr>msg_content := c, msg_embeds := es\<rparr>))"
  by (simp_all add: ex_platform_rejecting_def)


lemma ex_first_send:
  "on_message ex_platform ex_cog (ex_message 10 1) =
     (ex_cog\<lparr>wmessages := \<lparr>fifo_maxsize = 600, fifo_items = [(100, 10), (101, 10), (10, 10)]\<rparr>,
             message_cache := \<lparr>fifo_maxsize = 200, fifo_items =
               [(10, [(2, ex_copy 0 \<lparr>hook_id = 1002, hook_token = ''t''\<rparr>
                            (make_payload (ex_message 10 1) [])),
                      (3, ex_copy 1 \<lparr>hook_id = 1003, hook_token = ''t''\<rparr>
                            (make_payload (ex_message 10 1) [])),
                      (1, ex_message 10 1)])]\<rparr>\<rparr>,
      [Send 2 \<lparr>hook_id = 1002, hook_token = ''t''\<rparr> (make_payload (ex_message 10 1) []),
       Send 3 \<lparr>hook_id = 1003, hook_token = ''t''\<rparr> (make_payload (ex_message 10 1) [])],
      None)"
  by (simp add: on_message_def ex_cog_simps ex_message_simps ex_platform_simps ex_copy_id
        truthy_opt_def fifo_set_def fifo_new_def fifo_keys_def)

lemma ex_cog_sent_simps:
  "wmessages ex_cog_sent = \<lparr>fifo_maxsize = 600, fifo_items = [(100, 10), (101, 10), (10, 10)]\<rparr>"
  "message_cache ex_cog_sent = \<lparr>fifo_maxsize = 200, fifo_items =
     [(10, [(2, ex_copy 0 \<lparr>hook_id = 1002, hook_token = ''t''\<rparr>
                  (make_payload (ex_message 10 1) [])),
            (3, ex_copy 1 \<lparr>hook_id = 1003, hook_token = ''t''\<rparr>
                  (make_payload (ex_message 10 1) [])),
            (1, ex_message 10 1)])]\<rparr>"
  by (simp_all add: ex_cog_sent_def ex_first_send)

lemma ex_cog_sent_copies:
  "cached_copies ex_cog_sent 10 =
     [(2, ex_copy 0 \<lparr>hook_id = 1002, hook_token = ''t''\<rparr> (make_payload (ex_message 10 1) [])),
      (3, ex_copy 1 \<lparr>hook_id = 1003, hook_token = ''t''\<rparr> (make_payload (ex_message 10 1) [])),
      (1, ex_message 10 1)]"
  "fifo_get (wmessages ex_cog_sent) 10 = Some 10"
  "fifo_get (wmessages ex_cog_sent) 100 = Some 10"
  "fifo_get (wmessages ex_cog_sent) 101 = Some 10"
  by (simp_all add: cached_copies_def fifo_get_def ex_cog_sent_simps)

subsection \<open>Messages posted by a webhook\<close>

text \<open>
  C5. A message that carries a webhook id (a message that a webhook posted, such as the
  cog's own copies) is not mirrored again: \<open>on_message\<close> returns at once, makes no
  outbound call and leaves the cog, and with it both caches, as it was. Webhook ids are
  Discord ids and never zero.
\<close>

theorem on_message_skips_webhook_messages:
  assumes "msg_webhook_id m = Some w" and "w \<noteq> 0"
  shows "on_message P st m = (st, [], None)"
  using assms by (simp add: on_message_def truthy_opt_def truthy_def)

theorem on_message_skips_webhook_messages_witness:
  "msg_webhook_id ((ex_message 100 2)\<lparr>msg_webhook_id := Some 1002\<rparr>) = Some 1002 \<and>
   (1002 :: int) \<noteq> 0 \<and>
   on_message ex_platform ex_cog ((ex_message 100 2)\<lparr>msg_webhook_id := Some 1002\<rparr>)
     = (ex_cog, [], None)"
  using on_message_skips_webhook_messages
          [of "(ex_message 100 2)\<lparr>msg_webhook_id := Some 1002\<rparr>" 1002 ex_platform ex_cog]
  by simp

subsection \<open>Reactions leave the cog as it is\<close>

text \<open>
  C10. \<open>on_reaction_add\<close> changes nothing in the cog: the forward cache, the reverse
  cache, the two link maps and the webhooks are after the handler what they were before
  it, whatever the event and whatever the platform answers. It reads the caches and
  makes outbound calls only.
\<close>

theorem on_reaction_add_keeps_state: "fst (on_reaction_add P st r) = st"
  by (simp add: on_reaction_add_def Let_def split: option.split prod.split)

subsection \<open>Reloading the link index\<close>

lemma fetch_webhook_for_index:
  "link_channels (fst (fetch_webhook_for D st c)) = link_channels st \<and>
   channel_links (fst (fetch_webhook_for D st c)) = channel_links st \<and>
   message_cache (fst (fetch_webhook_for D st c)) = message_cache st \<and>
   wmessages (fst (fetch_webhook_for D st c)) = wmessages st"
  by (simp add: fetch_webhook_for_def split: option.split sum.split)

lemma fetch_webhooks_index:
  "link_channels (fst (fetch_webhooks D cs st)) = link_channels st \<and>
   channel_links (fst (fetch_webhooks D cs st)) = channel_links st \<and>
   message_cache (fst (fetch_webhooks D cs st)) = message_cache st \<and>
   wmessages (fst (fetch_webhooks D cs st)) = wmessages st"
proof (induction cs arbitrary: st)
  case Nil
  show ?case by simp
next
  case (Cons c cs)
  obtain st' r where f: "fetch_webhook_for D st c = (st', r)"
    by (cases "fetch_webhook_for D st c")
  with fetch_webhook_for_index[of D st c]
  have keep: "link_channels st' = link_channels st" "channel_links st' = channel_links st"
    "message_cache st' = message_cache st" "wmessages st' = wmessages st"
    by simp_all
  show ?case
  proof (cases r)
    case (Inl e)
    with f keep show ?thesis by simp
  next
    case (Inr h)
    with f keep Cons.IH[of st'] show ?thesis by simp
  qed
qed

lemma reload_links_raised:
  assumes r: "reload_links D st = (st', Some e)"
  shows "channel_links st' = channel_links st \<and> link_channels st' = link_channels st"
proof (cases "select_where D")
  case (Inl e')
  with r show ?thesis by (simp add: reload_links_def)
next
  case (Inr rows)
  obtain cl lc where ix: "index_records rows ([], []) = (cl, lc)"
    by (cases "index_records rows ([], [])")
  obtain st2 r2 where fw: "fetch_webhooks D (map fst cl) st = (st2, r2)"
    by (cases "fetch_webhooks D (map fst cl) st")
  from fetch_webhooks_index[of D "map fst cl" st] fw
  have keep: "link_channels st2 = link_channels st" "channel_links st2 = channel_links st"
    by simp_all
  show ?thesis
  proof (cases "if map fst cl \<noteq> [] then fetch_where D (map fst cl) else None")
    case (Some e')
    with r Inr ix show ?thesis by (simp add: reload_links_def)
  next
    case None
    with r Inr ix fw keep show ?thesis
      by (cases r2) (simp_all add: reload_links_def)
  qed
qed

lemma reload_links_returned:
  assumes r: "reload_links D st = (st', None)"
  shows "\<exists>rows. select_where D = Inr rows \<and>
         channel_links st' = map_of (as_tuples D (fst (index_records rows ([], [])))) \<and>
         link_channels st' = map_of (as_tuples D (snd (index_records rows ([], []))))"
proof (cases "select_where D")
  case (Inl e')
  with r show ?thesis by (simp add: reload_links_def)
next
  case (Inr rows)
  obtain cl lc where ix: "index_records rows ([], []) = (cl, lc)"
    by (cases "index_records rows ([], [])")
  obtain st2 r2 where fw: "fetch_webhooks D (map fst cl) st = (st2, r2)"
    by (cases "fetch_webhooks D (map fst cl) st")
  show ?thesis
  proof (cases "if map fst cl \<noteq> [] then fetch_where D (map fst cl) else None")
    case (Some e')
    with r Inr ix show ?thesis by (simp add: reload_links_def)
  next
    case None
    with r Inr ix fw show ?thesis
      by (cases r2) (auto simp add: reload_links_def)
  qed
qed

text \<open>
  C6. When the bulk fetch of the membership rows fails, \<open>reload_links\<close> fails with that
  error and leaves the whole cog, and so the maps \<open>channel_links\<close> and \<open>link_channels\<close>, as
  it was. More generally the two maps are assigned last: whenever \<open>reload_links\<close> raises,
  at whatever step, both maps are what they were before the call, and when it returns
  they are the maps built from the fetched rows.
\<close>

theorem reload_links_failure_keeps_index:
  "(\<forall>e. select_where D = Inl e \<longrightarrow> reload_links D st = (st, Some e)) \<and>
   (\<forall>e st'. reload_links D st = (st', Some e) \<longrightarrow>
      channel_links st' = channel_links st \<and> link_channels st' = link_channels st) \<and>
   (\<forall>st'. reload_links D st = (st', None) \<longrightarrow>
      (\<exists>rows. select_where D = Inr rows \<and>
         channel_links st' = map_of (as_tuples D (fst (index_records rows ([], [])))) \<and>
         link_channels st' = map_of (as_tuples D (snd (index_records rows ([], []))))))"
proof -
  have a: "\<forall>e. select_where D = Inl e \<longrightarrow> reload_links D st = (st, Some e)"
    by (simp add: reload_links_def)
  have b: "\<forall>e st'. reload_links D st = (st', Some e) \<longrightarrow>
      channel_links st' = channel_links st \<and> link_channels st' = link_channels st"
    using reload_links_raised by blast
  have c: "\<forall>st'. reload_links D st = (st', None) \<longrightarrow>
      (\<exists>rows. select_where D = Inr rows \<and>
         channel_links st' = map_of (as_tuples D (fst (index_records rows ([], [])))) \<and>
         link_channels st' = map_of (as_tuples D (snd (index_records rows ([], [])))))"
    using reload_links_returned by blast
  from a b c show ?thesis by (intro conjI)
qed

theorem reload_links_failure_keeps_index_witness:
  "select_where ex_backend_down = Inl StorageError \<and>
   reload_links ex_backend_down ex_cog = (ex_cog, Some StorageError) \<and>
   channel_links (fst (reload_links ex_backend_down ex_cog)) = channel_links ex_cog \<and>
   link_channels (fst (reload_links ex_backend_down ex_cog)) = link_channels ex_cog"
proof -
  have s: "select_where ex_backend_down = Inl StorageError"
    by (simp add: ex_backend_down_def)
  from reload_links_failure_keeps_index[of ex_backend_down ex_cog] s
  have r: "reload_links ex_backend_down ex_cog = (ex_cog, Some StorageError)"
    by blast
  show ?thesis using s r by simp
qed

subsection \<open>The loops over the copies of a message\<close>

lemma siblings_Cons:
  "siblings m ((cid, msg) # rest) =
     (if msg_id msg \<noteq> msg_id m then msg # siblings m rest else siblings m rest)"
  by (simp add: siblings_def)

lemma siblings_Nil: "siblings m [] = []"
  by (simp add: siblings_def)

lemma fifo_del_absent:
  assumes "fifo_get c k = None"
  shows "fifo_del c k = c"
proof -
  from assms have "filter (\<lambda>kv. fst kv \<noteq> k) (fifo_items c) = fifo_items c"
    by (auto simp: fifo_get_None_iff fifo_keys_def filter_id_conv)
  then show ?thesis by (simp add: fifo_del_def)
qed

lemma fifo_pop_eq:
  "fifo_pop c k [] = ((case fifo_get c k of None \<Rightarrow> [] | Some l \<Rightarrow> l), fifo_del c k)"
  by (simp add: fifo_pop_def fifo_del_absent split: option.split)

subsection \<open>Deleting a message\<close>






subsection \<open>Editing a message\<close>








subsection \<open>Mirroring a reaction\<close>

lemma react_copies_calls:
  assumes "\<forall>cm \<in> set copies. \<forall>e. add_reaction P (snd cm) emo = Some e \<longrightarrow> is_HTTPException e"
  shows "react_copies P m emo copies (calls, None) =
           (calls @ map (\<lambda>msg. AddReaction (msg_id msg) emo) (siblings m copies), None)"
  using assms
proof (induction copies arbitrary: calls)
  case Nil
  show ?case by (simp add: siblings_Nil)
next
  case (Cons cm copies)
  obtain cid msg where cm: "cm = (cid, msg)" by (cases cm)
  from Cons.prems have rest:
    "\<forall>cm \<in> set copies. \<forall>e. add_reaction P (snd cm) emo = Some e \<longrightarrow> is_HTTPException e"
    by simp
  from Cons.prems cm have here: "\<forall>e. add_reaction P msg emo = Some e \<longrightarrow> is_HTTPException e"
    by simp
  show ?case
  proof (cases "msg_id msg \<noteq> msg_id m")
    case True
    with here cm Cons.IH[OF rest, of "calls @ [AddReaction (msg_id msg) emo]"] show ?thesis
      by (cases "add_reaction P msg emo") (simp_all add: siblings_Cons)
  next
    case False
    with cm Cons.IH[OF rest, of calls] show ?thesis
      by (simp add: siblings_Cons)
  qed
qed

text \<open>
  C3, as the code has it. For a message with a correlation, \<open>on_reaction_add\<close> adds the
  emoji to every other recorded copy exactly when the count that comes with the event
  is 1, and makes no call otherwise. That count is the number of times this emoji has
  been added to the message, so a repeat of an emoji is not mirrored, while the first
  use of another emoji on the same message is. A failed call (any \<open>HTTPException\<close>) is
  passed over. The hypotheses: the original's id is not zero, and a reaction call
  either succeeds or raises an \<open>HTTPException\<close>.
\<close>

theorem on_reaction_add_mirrors_on_count_one:
  assumes "fifo_get (wmessages st) (msg_id (r_message r)) = Some origid"
    and "origid \<noteq> 0"
    and "\<forall>cm \<in> set (cached_copies st origid). \<forall>e.
           add_reaction P (snd cm) (r_emoji r) = Some e \<longrightarrow> is_HTTPException e"
  shows "on_reaction_add P st r =
           (st,
            (if r_count r = 1
             then map (\<lambda>msg. AddReaction (msg_id msg) (r_emoji r))
                    (siblings (r_message r) (cached_copies st origid))
             else []),
            None)"
  using assms(1,2) react_copies_calls[OF assms(3), of "r_message r" "[]"]
  by (simp add: on_reaction_add_def truthy_def cached_copies_def Let_def)

theorem on_reaction_add_mirrors_on_count_one_witness:
  "fifo_get (wmessages ex_cog_sent) (msg_id (r_message ex_second_reaction)) = Some 10 \<and>
   (10 :: int) \<noteq> 0 \<and>
   on_reaction_add ex_platform_rejecting ex_cog_sent ex_second_reaction
     = (ex_cog_sent, [AddReaction 100 ''tada'', AddReaction 101 ''tada''], None) \<and>
   on_reaction_add ex_platform_rejecting ex_cog_sent (ex_second_reaction\<lparr>r_count := 2\<rparr>)
     = (ex_cog_sent, [], None)"
proof -
  have h1: "fifo_get (wmessages ex_cog_sent) (msg_id (r_message ex_second_reaction)) = Some 10"
    by (simp add: ex_cog_sent_copies ex_second_reaction_def ex_message_simps)
  have h3: "\<forall>cm \<in> set (cached_copies ex_cog_sent 10). \<forall>e.
              add_reaction ex_platform_rejecting (snd cm) (r_emoji ex_second_reaction) = Some e
                \<longrightarrow> is_HTTPException e"
    by (simp add: ex_cog_sent_copies ex_platform_rejecting_simps is_HTTPException_def)
  have sib: "map (\<lambda>msg. AddReaction (msg_id msg) (r_emoji ex_second_reaction))
               (siblings (r_message ex_second_reaction) (cached_copies ex_cog_sent 10))
             = [AddReaction 100 ''tada'', AddReaction 101 ''tada'']"
    by (simp add: ex_cog_sent_copies siblings_def ex_second_reaction_def ex_message_simps
          ex_copy_id)
  have c1: "r_count ex_second_reaction = 1"
    by (simp add: ex_second_reaction_def)
  have h1': "fifo_get (wmessages ex_cog_sent)
               (msg_id (r_message (ex_second_reaction\<lparr>r_count := 2\<rparr>))) = Some 10"
    using h1 by simp
  have h3': "\<forall>cm \<in> set (cached_copies ex_cog_sent 10). \<forall>e.
              add_reaction ex_platform_rejecting (snd cm)
                (r_emoji (ex_second_reaction\<lparr>r_count := 2\<rparr>)) = Some e
                \<longrightarrow> is_HTTPException e"
    using h3 by simp
  from on_reaction_add_mirrors_on_count_one[OF h1 _ h3]
       on_reaction_add_mirrors_on_count_one[OF h1' _ h3'] sib c1 h1
  show ?thesis by simp
qed

text \<open>
  C3 in the specification's wording does not hold: the message 10 already carries a
  thumbs-up, the event is the first tada on it, so the second reaction on that message
  (with another emoji), and it is mirrored to both siblings.
\<close>

theorem second_reaction_with_other_emoji_is_mirrored:
  "reaction_total (r_message ex_second_reaction) = 2 \<and>
   r_count ex_second_reaction = 1 \<and>
   fst (snd (on_reaction_add ex_platform ex_cog_sent ex_second_reaction))
     = [AddReaction 100 ''tada'', AddReaction 101 ''tada'']"
  by (simp add: reaction_total_def ex_second_reaction_def on_reaction_add_def ex_cog_sent_simps
        fifo_get_def truthy_def ex_message_simps ex_copy_id ex_platform_simps)

subsection \<open>What the loops of \<open>on_message\<close> leave alone\<close>

lemma send_channels_frame:
  "link_channels (fo_engine (send_channels P m cs s)) = link_channels (fo_engine s) \<and>
   channel_links (fo_engine (send_channels P m cs s)) = channel_links (fo_engine s) \<and>
   hooks (fo_engine (send_channels P m cs s)) = hooks (fo_engine s) \<and>
   message_cache (fo_engine (send_channels P m cs s)) = message_cache (fo_engine s) \<and>
   fifo_maxsize (wmessages (fo_engine (send_channels P m cs s)))
     = fifo_maxsize (wmessages (fo_engine s))"
proof (induction cs arbitrary: s)
  case Nil
  show ?case by simp
next
  case (Cons c cs)
  show ?case
  proof (cases "c \<noteq> msg_channel m")
    case False
    with Cons.IH[of s] show ?thesis by simp
  next
    case True
    show ?thesis
    proof (cases "if msg_attachments m \<noteq> [] then prepare_attachments P (msg_attachments m)
                  else Inr []")
      case (Inl e)
      with True show ?thesis by simp
    next
      case (Inr files)
      show ?thesis
      proof (cases "hooks (fo_engine s) c")
        case None
        with True Inr show ?thesis by simp
      next
        case (Some hook)
        show ?thesis
        proof (cases "hook_send P (length (fo_calls s)) hook (make_payload m files)")
          case (Inl e)
          with True Inr Some show ?thesis by simp
        next
          case (Inr msg)
          with True \<open>_ = Inr files\<close> Some
            Cons.IH[of "s\<lparr>fo_engine := (fo_engine s)
                               \<lparr>wmessages :=
                                  fifo_set (wmessages (fo_engine s)) (msg_id msg) (msg_id m)\<rparr>,
                            fo_sent := fo_sent s @ [(c, msg)],
                            fo_calls := fo_calls s @ [Send c hook (make_payload m files)]\<rparr>"]
          show ?thesis by (simp add: fifo_maxsize_set)
        qed
      qed
    qed
  qed
qed

lemma send_links_frame:
  "link_channels (fo_engine (send_links P m ls s)) = link_channels (fo_engine s) \<and>
   channel_links (fo_engine (send_links P m ls s)) = channel_links (fo_engine s) \<and>
   hooks (fo_engine (send_links P m ls s)) = hooks (fo_engine s) \<and>
   message_cache (fo_engine (send_links P m ls s)) = message_cache (fo_engine s) \<and>
   fifo_maxsize (wmessages (fo_engine (send_links P m ls s)))
     = fifo_maxsize (wmessages (fo_engine s))"
proof (induction ls arbitrary: s)
  case Nil
  show ?case by simp
next
  case (Cons l ls)
  show ?case
  proof (cases "link_channels (fo_engine s) l")
    case None
    then show ?thesis by simp
  next
    case (Some cs)
    show ?thesis
    proof (cases "fo_raised (send_channels P m cs s)")
      case None
      with Some Cons.IH[of "send_channels P m cs s"] send_channels_frame[of P m cs s]
      show ?thesis by simp
    next
      case (Some e)
      with \<open>link_channels (fo_engine s) l = Some cs\<close> send_channels_frame[of P m cs s]
      show ?thesis by simp
    qed
  qed
qed

subsection \<open>The capacity of the caches\<close>

lemma on_message_unfold:
  "on_message P st m =
     (if truthy_opt (msg_webhook_id m) \<or> links_of st (msg_channel m) = [] then (st, [], None)
      else
        (case fo_raised (fanned P st m) of
           Some e \<Rightarrow> (fo_engine (fanned P st m), fo_calls (fanned P st m), Some e)
         | None \<Rightarrow>
             if fo_sent (fanned P st m) \<noteq> [] then
               ((fo_engine (fanned P st m))
                  \<lparr>wmessages :=
                     fifo_set (wmessages (fo_engine (fanned P st m))) (msg_id m) (msg_id m),
                   message_cache :=
                     fifo_set (message_cache (fo_engine (fanned P st m))) (msg_id m)
                       (fo_sent (fanned P st m) @ [(msg_channel m, m)])\<rparr>,
                fo_calls (fanned P st m), None)
             else (fo_engine (fanned P st m), fo_calls (fanned P st m), None)))"
proof -
  have l: "(case channel_links st (msg_channel m) of None \<Rightarrow> [] | Some ls \<Rightarrow> ls)
             = links_of st (msg_channel m)"
    by (simp add: links_of_def)
  show ?thesis
    unfolding on_message_def l Let_def fanned_def[symmetric]
    by (cases "fo_raised (fanned P st m)") auto
qed

lemma fanned_frame:
  "link_channels (fo_engine (fanned P st m)) = link_channels st \<and>
   channel_links (fo_engine (fanned P st m)) = channel_links st \<and>
   hooks (fo_engine (fanned P st m)) = hooks st \<and>
   message_cache (fo_engine (fanned P st m)) = message_cache st \<and>
   fifo_maxsize (wmessages (fo_engine (fanned P st m))) = fifo_maxsize (wmessages st)"
  using send_links_frame[of P m "links_of st (msg_channel m)"
          "\<lparr>fo_engine = st, fo_sent = [], fo_calls = [], fo_raised = None\<rparr>"]
  by (simp add: fanned_def)

lemma on_message_maxsize:
  "fifo_maxsize (message_cache (fst (on_message P st m))) = fifo_maxsize (message_cache st) \<and>
   fifo_maxsize (wmessages (fst (on_message P st m))) = fifo_maxsize (wmessages st)"
  using fanned_frame[of P st m]
  by (simp add: on_message_unfold fifo_maxsize_set split: option.split)

lemma on_message_edit_maxsize:
  "fifo_maxsize (message_cache (fst (on_message_edit P st before after)))
     = fifo_maxsize (message_cache st) \<and>
   wmessages (fst (on_message_edit P st before after)) = wmessages st"
  by (simp add: on_message_edit_def fifo_pop_eq Let_def fifo_maxsize_set fifo_maxsize_del
        split: option.split)

lemma on_message_delete_maxsize:
  "fifo_maxsize (message_cache (fst (on_message_delete P st m)))
     = fifo_maxsize (message_cache st) \<and>
   wmessages (fst (on_message_delete P st m)) = wmessages st"
  by (simp add: on_message_delete_def fifo_pop_eq Let_def fifo_maxsize_del
        split: option.split prod.split)

lemma on_reaction_add_same: "fst (on_reaction_add P st r) = st"
  by (simp add: on_reaction_add_def Let_def split: option.split prod.split)

lemma handle_maxsize:
  "fifo_maxsize (message_cache (fst (handle P st ev))) = fifo_maxsize (message_cache st) \<and>
   fifo_maxsize (wmessages (fst (handle P st ev))) = fifo_maxsize (wmessages st)"
  by (cases ev)
     (simp_all add: on_message_maxsize on_message_edit_maxsize on_message_delete_maxsize
        on_reaction_add_same)

lemma fifo_evicts_oldest:
  assumes full: "length (fifo_items c) = fifo_maxsize c" and pos: "0 < fifo_maxsize c"
    and dist: "distinct (fifo_keys c)" and fresh: "k \<notin> set (fifo_keys c)"
  shows "fifo_items (fifo_set c k v) = tl (fifo_items c) @ [(k, v)]"
    and "fifo_get (fifo_set c k v) (hd (fifo_keys c)) = None"
    and "k' \<noteq> hd (fifo_keys c) \<Longrightarrow> k' \<noteq> k \<Longrightarrow> fifo_get (fifo_set c k v) k' = fifo_get c k'"
proof -
  show items: "fifo_items (fifo_set c k v) = tl (fifo_items c) @ [(k, v)]"
    using full pos fresh by (rule fifo_set_full)
  from full pos obtain kv rest where c: "fifo_items c = kv # rest"
    by (cases "fifo_items c") auto
  from dist c have "fst kv \<notin> fst ` set rest"
    by (simp add: fifo_keys_def)
  moreover from fresh c have "fst kv \<noteq> k"
    by (auto simp: fifo_keys_def)
  ultimately show "fifo_get (fifo_set c k v) (hd (fifo_keys c)) = None"
    using items c by (simp add: fifo_get_def fifo_keys_def map_of_eq_None_iff)
  show "k' \<noteq> hd (fifo_keys c) \<Longrightarrow> k' \<noteq> k \<Longrightarrow> fifo_get (fifo_set c k v) k' = fifo_get c k'"
    using items c by (simp add: fifo_get_def fifo_keys_def map_add_def split: option.split)
qed

lemma absent_edit_is_noop:
  "fifo_get (message_cache st) (msg_id before) = None \<Longrightarrow>
   on_message_edit P st before after = (st, [], None)"
  by (simp add: on_message_edit_def fifo_pop_def)

lemma absent_delete_is_noop:
  assumes "fifo_get (wmessages st) (msg_id m) = None \<or>
           (\<exists>origid. fifo_get (wmessages st) (msg_id m) = Some origid \<and>
                     fifo_get (message_cache st) origid = None)"
  shows "on_message_delete P st m = (st, [], None)"
  using assms by (auto simp: on_message_delete_def fifo_pop_def)

lemma absent_reaction_is_noop:
  assumes "fifo_get (wmessages st) (msg_id (r_message r)) = None \<or>
           (\<exists>origid. fifo_get (wmessages st) (msg_id (r_message r)) = Some origid \<and>
                     fifo_get (message_cache st) origid = None)"
  shows "on_reaction_add P st r = (st, [], None)"
  using assms by (auto simp: on_reaction_add_def)

text \<open>
  C9. The forward cache is made with capacity 200 and the reverse cache with capacity
  600, and no handler changes a capacity. Setting a new key in a cache that holds as
  many entries as its capacity evicts exactly the oldest entry: the entries are the old
  ones without the first, followed by the new one; a lookup of the evicted key is
  absent, a lookup of any other key is what it was, and the new key is found. Below its
  capacity a cache evicts nothing. Every handler that finds no entry does nothing: an
  edit of a message that is no forward key, and a delete or a reaction on a message
  that is not in the reverse cache or whose original is no longer in the forward cache,
  make no outbound call, leave the cog as it is and return normally.
\<close>

theorem caches_are_bounded_fifo:
  "fifo_maxsize (message_cache new_cog) = 200 \<and> fifo_maxsize (wmessages new_cog) = 600 \<and>
   fifo_maxsize (message_cache (fst (handle P st ev))) = fifo_maxsize (message_cache st) \<and>
   fifo_maxsize (wmessages (fst (handle P st ev))) = fifo_maxsize (wmessages st) \<and>
   (length (fifo_items c) = fifo_maxsize c \<and> 0 < fifo_maxsize c \<and> distinct (fifo_keys c) \<and>
    k \<notin> set (fifo_keys c) \<longrightarrow>
      fifo_items (fifo_set c k v) = tl (fifo_items c) @ [(k, v)] \<and>
      fifo_get (fifo_set c k v) (hd (fifo_keys c)) = None \<and>
      (\<forall>k'. k' \<noteq> hd (fifo_keys c) \<and> k' \<noteq> k \<longrightarrow> fifo_get (fifo_set c k v) k' = fifo_get c k') \<and>
      fifo_get (fifo_set c k v) k = Some v) \<and>
   (length (fifo_items c) < fifo_maxsize c \<and> k \<notin> set (fifo_keys c) \<longrightarrow>
      fifo_items (fifo_set c k v) = fifo_items c @ [(k, v)]) \<and>
   (fifo_get (message_cache st) (msg_id before) = None \<longrightarrow>
      on_message_edit P st before after = (st, [], None)) \<and>
   (fifo_get (wmessages st) (msg_id m) = None \<or>
    (\<exists>origid. fifo_get (wmessages st) (msg_id m) = Some origid \<and>
              fifo_get (message_cache st) origid = None) \<longrightarrow>
      on_message_delete P st m = (st, [], None) \<and>
      on_reaction_add P st \<lparr>r_message = m, r_emoji = emo, r_count = n\<rparr> = (st, [], None))"
proof -
  have caps: "fifo_maxsize (message_cache new_cog) = 200 \<and> fifo_maxsize (wmessages new_cog) = 600"
    by (simp add: new_cog_def fifo_new_def)
  have full: "length (fifo_items c) = fifo_maxsize c \<and> 0 < fifo_maxsize c \<and>
              distinct (fifo_keys c) \<and> k \<notin> set (fifo_keys c) \<longrightarrow>
      fifo_items (fifo_set c k v) = tl (fifo_items c) @ [(k, v)] \<and>
      fifo_get (fifo_set c k v) (hd (fifo_keys c)) = None \<and>
      (\<forall>k'. k' \<noteq> hd (fifo_keys c) \<and> k' \<noteq> k \<longrightarrow> fifo_get (fifo_set c k v) k' = fifo_get c k') \<and>
      fifo_get (fifo_set c k v) k = Some v"
    using fifo_evicts_oldest[where c=c and k=k and v=v] fifo_get_set_same[of c k v] by blast
  have room: "length (fifo_items c) < fifo_maxsize c \<and> k \<notin> set (fifo_keys c) \<longrightarrow>
      fifo_items (fifo_set c k v) = fifo_items c @ [(k, v)]"
    using fifo_set_room[of c k v] by blast
  have edit: "fifo_get (message_cache st) (msg_id before) = None \<longrightarrow>
      on_message_edit P st before after = (st, [], None)"
    using absent_edit_is_noop by blast
  have other: "fifo_get (wmessages st) (msg_id m) = None \<or>
    (\<exists>origid. fifo_get (wmessages st) (msg_id m) = Some origid \<and>
              fifo_get (message_cache st) origid = None) \<longrightarrow>
      on_message_delete P st m = (st, [], None) \<and>
      on_reaction_add P st \<lparr>r_message = m, r_emoji = emo, r_count = n\<rparr> = (st, [], None)"
    using absent_delete_is_noop[of st m P]
      absent_reaction_is_noop[of st "\<lparr>r_message = m, r_emoji = emo, r_count = n\<rparr>" P]
    by simp
  from caps handle_maxsize[of P st ev] full room edit other show ?thesis
    by (intro conjI) simp_all
qed

theorem caches_are_bounded_fifo_witness:
  "fifo_items (fifo_set \<lparr>fifo_maxsize = 2, fifo_items = [(1 :: int, ''a''), (2, ''b'')]\<rparr> 3 ''c'')
     = [(2, ''b''), (3, ''c'')] \<and>
   fifo_get (fifo_set \<lparr>fifo_maxsize = 2, fifo_items = [(1 :: int, ''a''), (2, ''b'')]\<rparr> 3 ''c'') 1
     = None \<and>
   fifo_get (fifo_set \<lparr>fifo_maxsize = 2, fifo_items = [(1 :: int, ''a''), (2, ''b'')]\<rparr> 3 ''c'') 2
     = Some ''b'' \<and>
   fifo_get (message_cache ex_cog) (msg_id (ex_message 10 1)) = None \<and>
   on_message_edit ex_platform ex_cog (ex_message 10 1) (ex_message 10 1) = (ex_cog, [], None) \<and>
   fifo_get (wmessages ex_cog) (msg_id (ex_message 10 1)) = None \<and>
   on_message_delete ex_platform ex_cog (ex_message 10 1) = (ex_cog, [], None)"
proof -
  let ?c = "\<lparr>fifo_maxsize = 2, fifo_items = [(1 :: int, ''a''), (2, ''b'')]\<rparr>"
  have full: "length (fifo_items ?c) = fifo_maxsize ?c \<and> 0 < fifo_maxsize ?c \<and>
              distinct (fifo_keys ?c) \<and> 3 \<notin> set (fifo_keys ?c)"
    by (simp add: fifo_keys_def)
  have hd: "hd (fifo_keys ?c) = 1" "tl (fifo_items ?c) = [(2, ''b'')]" "fifo_get ?c 2 = Some ''b''"
    by (simp_all add: fifo_keys_def fifo_get_def)
  have e1: "fifo_get (message_cache ex_cog) (msg_id (ex_message 10 1)) = None"
    by (simp add: ex_cog_simps fifo_new_def fifo_get_def)
  have e2: "fifo_get (wmessages ex_cog) (msg_id (ex_message 10 1)) = None"
    by (simp add: ex_cog_simps fifo_new_def fifo_get_def)
  note inst = caches_are_bounded_fifo[where c = ?c and k = 3 and v = "''c''" and st = ex_cog
      and before = "ex_message 10 1" and after = "ex_message 10 1" and m = "ex_message 10 1"
      and P = ex_platform and ev = "MessageDelete (ex_message 10 1)" and emo = "''tada''" and n = 1]
  from inst full hd have a: "fifo_items (fifo_set ?c 3 ''c'') = [(2, ''b''), (3, ''c'')]"
    and b: "fifo_get (fifo_set ?c 3 ''c'') 1 = None"
    and c: "fifo_get (fifo_set ?c 3 ''c'') 2 = Some ''b''"
    by simp_all
  from inst e1 have d: "on_message_edit ex_platform ex_cog (ex_message 10 1) (ex_message 10 1)
                         = (ex_cog, [], None)"
    by blast
  from inst e2 have e: "on_message_delete ex_platform ex_cog (ex_message 10 1) = (ex_cog, [], None)"
    by blast
  from a b c d e e1 e2 show ?thesis by (intro conjI)
qed

subsection \<open>The copies of a new message\<close>

lemma prepare_attachments_ok:
  assumes "\<forall>a sp e. to_file P a sp = Inl e \<longrightarrow> is_HTTPException e"
  shows "\<exists>fs. prepare_attachments P atts = Inr fs"
proof (induction atts)
  case Nil
  show ?case by simp
next
  case (Cons a atts)
  then obtain fs where fs: "prepare_attachments P atts = Inr fs" by blast
  show ?case
  proof (cases "to_file P a (att_spoiler a)")
    case (Inl e)
    with assms have "is_HTTPException e" by blast
    with Inl fs show ?thesis by simp
  next
    case (Inr f)
    with fs show ?thesis by simp
  qed
qed

lemma prepared_files:
  assumes "posts_succeed P"
  shows "(if msg_attachments m \<noteq> [] then prepare_attachments P (msg_attachments m) else Inr [])
           = Inr (attached_files P m)"
proof -
  from assms have "\<forall>a sp e. to_file P a sp = Inl e \<longrightarrow> is_HTTPException e"
    by (simp add: posts_succeed_def)
  from prepare_attachments_ok[OF this, of "msg_attachments m"]
  obtain fs where "prepare_attachments P (msg_attachments m) = Inr fs" by blast
  then show ?thesis by (simp add: attached_files_def)
qed

lemma send_channels_ok:
  assumes ok: "posts_succeed P"
    and hk: "\<forall>c \<in> set cs. c \<noteq> msg_channel m \<longrightarrow> hooks (fo_engine s) c \<noteq> None"
  shows "fo_raised (send_channels P m cs s) = fo_raised s \<and>
         fo_calls (send_channels P m cs s) =
           fo_calls s @
           map (\<lambda>c. Send c (the (hooks (fo_engine s) c)) (make_payload m (attached_files P m)))
             (filter (\<lambda>c. c \<noteq> msg_channel m) cs) \<and>
         map fst (fo_sent (send_channels P m cs s)) =
           map fst (fo_sent s) @ filter (\<lambda>c. c \<noteq> msg_channel m) cs"
  using hk
proof (induction cs arbitrary: s)
  case Nil
  show ?case by simp
next
  case (Cons c cs)
  from Cons.prems have rest: "\<forall>c \<in> set cs. c \<noteq> msg_channel m \<longrightarrow> hooks (fo_engine s) c \<noteq> None"
    by simp
  show ?case
  proof (cases "c \<noteq> msg_channel m")
    case False
    with Cons.IH[OF rest] show ?thesis by simp
  next
    case True
    with Cons.prems obtain hook where hook: "hooks (fo_engine s) c = Some hook" by auto
    from ok obtain msg where
      msg: "hook_send P (length (fo_calls s)) hook (make_payload m (attached_files P m)) = Inr msg"
      unfolding posts_succeed_def by blast
    let ?s = "s\<lparr>fo_engine := (fo_engine s)
                   \<lparr>wmessages := fifo_set (wmessages (fo_engine s)) (msg_id msg) (msg_id m)\<rparr>,
                fo_sent := fo_sent s @ [(c, msg)],
                fo_calls := fo_calls s @ [Send c hook (make_payload m (attached_files P m))]\<rparr>"
    have step: "send_channels P m (c # cs) s = send_channels P m cs ?s"
      using True hook msg prepared_files[OF ok, of m] by simp
    have "\<forall>c \<in> set cs. c \<noteq> msg_channel m \<longrightarrow> hooks (fo_engine ?s) c \<noteq> None"
      using rest by simp
    from Cons.IH[OF this] step True hook show ?thesis by simp
  qed
qed

lemma send_links_ok:
  assumes ok: "posts_succeed P"
    and ix: "\<forall>l \<in> set ls. \<exists>cs. link_channels (fo_engine s) l = Some cs \<and>
               (\<forall>c \<in> set cs. hooks (fo_engine s) c \<noteq> None)"
    and quiet: "fo_raised s = None"
  shows "fo_raised (send_links P m ls s) = None \<and>
         fo_calls (send_links P m ls s) =
           fo_calls s @
           map (\<lambda>c. Send c (the (hooks (fo_engine s) c)) (make_payload m (attached_files P m)))
             (concat (map (\<lambda>l. filter (\<lambda>c. c \<noteq> msg_channel m) (link_members (fo_engine s) l)) ls)) \<and>
         map fst (fo_sent (send_links P m ls s)) =
           map fst (fo_sent s) @
           concat (map (\<lambda>l. filter (\<lambda>c. c \<noteq> msg_channel m) (link_members (fo_engine s) l)) ls)"
  using ix quiet
proof (induction ls arbitrary: s)
  case Nil
  then show ?case by simp
next
  case (Cons l ls)
  from Cons.prems(1) obtain cs where cs: "link_channels (fo_engine s) l = Some cs"
    and hk: "\<forall>c \<in> set cs. hooks (fo_engine s) c \<noteq> None" by auto
  let ?s = "send_channels P m cs s"
  from hk have hk': "\<forall>c \<in> set cs. c \<noteq> msg_channel m \<longrightarrow> hooks (fo_engine s) c \<noteq> None" by simp
  note inner = send_channels_ok[OF ok hk']
  note frame = send_channels_frame[of P m cs s]
  from inner Cons.prems(2) have raised: "fo_raised ?s = None" by simp
  have step: "send_links P m (l # ls) s = send_links P m ls ?s"
    using cs raised by simp
  have "\<forall>l \<in> set ls. \<exists>cs. link_channels (fo_engine ?s) l = Some cs \<and>
               (\<forall>c \<in> set cs. hooks (fo_engine ?s) c \<noteq> None)"
    using Cons.prems(1) frame by simp
  from Cons.IH[OF this raised] step inner frame cs show ?case
    by (simp add: link_members_def)
qed


lemma fanned_ok:
  assumes ok: "posts_succeed P" and ix: "index_ok st"
  shows "fo_raised (fanned P st m) = None \<and>
         fo_calls (fanned P st m) =
           map (\<lambda>c. Send c (the (hooks st c)) (make_payload m (attached_files P m)))
             (fanout_targets st m) \<and>
         map fst (fo_sent (fanned P st m)) = fanout_targets st m"
proof -
  let ?s = "\<lparr>fo_engine = st, fo_sent = [], fo_calls = [], fo_raised = None\<rparr>"
  have "\<forall>l \<in> set (links_of st (msg_channel m)). \<exists>cs. link_channels (fo_engine ?s) l = Some cs \<and>
               (\<forall>c \<in> set cs. hooks (fo_engine ?s) c \<noteq> None)"
  proof (cases "channel_links st (msg_channel m)")
    case None
    then show ?thesis by (simp add: links_of_def)
  next
    case (Some ls)
    with ix show ?thesis unfolding index_ok_def links_of_def by fastforce
  qed
  from send_links_ok[OF ok this, of m] show ?thesis
    by (simp add: fanned_def fanout_targets_def)
qed

lemma copies_posted_sends:
  "copies_posted c (map (\<lambda>c. Send c (h c) p) cs) = length (filter (\<lambda>x. x = c) cs)"
  by (induction cs) (simp_all add: copies_posted_def)

lemma count_in_distinct:
  "distinct xs \<Longrightarrow> length (filter (\<lambda>x. x = c) (filter Q xs)) = (if c \<in> set xs \<and> Q c then 1 else 0)"
  by (induction xs) auto

lemma count_targets:
  assumes "\<forall>l \<in> set ls. distinct (f l)"
  shows "length (filter (\<lambda>x. x = c) (concat (map (\<lambda>l. filter Q (f l)) ls)))
           = length (filter (\<lambda>l. Q c \<and> c \<in> set (f l)) ls)"
  using assms
proof (induction ls)
  case Nil
  show ?case by simp
next
  case (Cons l ls)
  then have "distinct (f l)" by simp
  from count_in_distinct[OF this, of c Q] Cons show ?case by simp
qed

lemma index_ok_members:
  assumes "index_ok st"
  shows "\<forall>l \<in> set (links_of st c). distinct (link_members st l)"
proof (cases "channel_links st c")
  case None
  then show ?thesis by (simp add: links_of_def)
next
  case (Some ls)
  with assms have "\<forall>l \<in> set ls. \<exists>cs. link_channels st l = Some cs \<and> distinct cs"
    unfolding index_ok_def by fastforce
  with Some show ?thesis by (auto simp: links_of_def link_members_def)
qed

text \<open>
  C1, as the code has it. For a new message that no webhook posted, on a platform where
  every post succeeds, \<open>on_message\<close> returns normally after posting link by link: for each
  link of the message's channel in turn, one copy to every member channel of that link
  other than the message's channel. So the message's channel gets no copy, every other
  member channel of every such link gets one, and a channel gets as many copies as
  there are links that hold both it and the message's channel: one when a single link
  holds the pair, two when two links share it.
\<close>

theorem on_message_posts_per_link:
  assumes "\<not> truthy_opt (msg_webhook_id m)" and "index_ok st" and "posts_succeed P"
  shows "snd (snd (on_message P st m)) = None \<and>
         fst (snd (on_message P st m)) =
           map (\<lambda>c. Send c (the (hooks st c)) (make_payload m (attached_files P m)))
             (fanout_targets st m) \<and>
         msg_channel m \<notin> set (fanout_targets st m) \<and>
         (\<forall>l \<in> set (links_of st (msg_channel m)). \<forall>c \<in> set (link_members st l).
            c \<noteq> msg_channel m \<longrightarrow> c \<in> set (fanout_targets st m)) \<and>
         (\<forall>c. copies_posted c (fst (snd (on_message P st m))) =
               length (filter (\<lambda>l. c \<noteq> msg_channel m \<and> c \<in> set (link_members st l))
                         (links_of st (msg_channel m))))"
proof -
  note f = fanned_ok[OF assms(3,2), of m]
  have none: "links_of st (msg_channel m) = [] \<Longrightarrow> fanout_targets st m = []"
    by (simp add: fanout_targets_def)
  have calls: "fst (snd (on_message P st m)) =
           map (\<lambda>c. Send c (the (hooks st c)) (make_payload m (attached_files P m)))
             (fanout_targets st m)"
    using assms(1) f none by (simp add: on_message_unfold)
  have ret: "snd (snd (on_message P st m)) = None"
    using assms(1) f by (simp add: on_message_unfold)
  have self: "msg_channel m \<notin> set (fanout_targets st m)"
    by (auto simp: fanout_targets_def)
  have all: "\<forall>l \<in> set (links_of st (msg_channel m)). \<forall>c \<in> set (link_members st l).
            c \<noteq> msg_channel m \<longrightarrow> c \<in> set (fanout_targets st m)"
    by (auto simp: fanout_targets_def)
  have cnt: "\<forall>c. copies_posted c (fst (snd (on_message P st m))) =
               length (filter (\<lambda>l. c \<noteq> msg_channel m \<and> c \<in> set (link_members st l))
                         (links_of st (msg_channel m)))"
    using count_targets[OF index_ok_members[OF assms(2), of "msg_channel m"],
            of _ "\<lambda>c. c \<noteq> msg_channel m"]
    by (simp add: calls copies_posted_sends fanout_targets_def)
  from ret calls self all cnt show ?thesis by (intro conjI)
qed

lemma ex_platform_posts_succeed: "posts_succeed ex_platform"
  by (simp add: posts_succeed_def ex_platform_def)

lemma ex_cog_index_ok: "index_ok ex_cog"
  by (auto simp: index_ok_def ex_cog_simps split: if_splits)

lemma ex_cog_two_links_index_ok: "index_ok ex_cog_two_links"
  by (auto simp: index_ok_def ex_cog_two_links_simps split: if_splits)

theorem on_message_posts_per_link_witness:
  "\<not> truthy_opt (msg_webhook_id (ex_message 10 1)) \<and> index_ok ex_cog \<and>
   posts_succeed ex_platform \<and>
   fanout_targets ex_cog (ex_message 10 1) = [2, 3] \<and>
   snd (snd (on_message ex_platform ex_cog (ex_message 10 1))) = None \<and>
   fst (snd (on_message ex_platform ex_cog (ex_message 10 1))) =
     [Send 2 \<lparr>hook_id = 1002, hook_token = ''t''\<rparr> (make_payload (ex_message 10 1) []),
      Send 3 \<lparr>hook_id = 1003, hook_token = ''t''\<rparr> (make_payload (ex_message 10 1) [])] \<and>
   copies_posted 3 (fst (snd (on_message ex_platform ex_cog (ex_message 10 1)))) = 1"
proof -
  have h1: "\<not> truthy_opt (msg_webhook_id (ex_message 10 1))"
    by (simp add: truthy_opt_def ex_message_simps)
  have t: "fanout_targets ex_cog (ex_message 10 1) = [2, 3]"
    by (simp add: fanout_targets_def links_of_def link_members_def ex_cog_simps ex_message_simps)
  have files: "attached_files ex_platform (ex_message 10 1) = []"
    by (simp add: attached_files_def ex_message_simps)
  have n: "length (filter (\<lambda>l. (3::int) \<noteq> msg_channel (ex_message 10 1) \<and>
                                3 \<in> set (link_members ex_cog l))
                     (links_of ex_cog (msg_channel (ex_message 10 1)))) = 1"
    by (simp add: links_of_def link_members_def ex_cog_simps ex_message_simps)
  from on_message_posts_per_link[OF h1 ex_cog_index_ok ex_platform_posts_succeed]
  have r: "snd (snd (on_message ex_platform ex_cog (ex_message 10 1))) = None"
    and c: "fst (snd (on_message ex_platform ex_cog (ex_message 10 1))) =
           map (\<lambda>c. Send c (the (hooks ex_cog c))
                      (make_payload (ex_message 10 1) (attached_files ex_platform (ex_message 10 1))))
             (fanout_targets ex_cog (ex_message 10 1))"
    and k: "copies_posted 3 (fst (snd (on_message ex_platform ex_cog (ex_message 10 1)))) =
               length (filter (\<lambda>l. (3::int) \<noteq> msg_channel (ex_message 10 1) \<and>
                                3 \<in> set (link_members ex_cog l))
                     (links_of ex_cog (msg_channel (ex_message 10 1))))"
    by blast+
  from c t files have c': "fst (snd (on_message ex_platform ex_cog (ex_message 10 1))) =
     [Send 2 \<lparr>hook_id = 1002, hook_token = ''t''\<rparr> (make_payload (ex_message 10 1) []),
      Send 3 \<lparr>hook_id = 1003, hook_token = ''t''\<rparr> (make_payload (ex_message 10 1) [])]"
    by (simp add: ex_cog_simps)
  from h1 ex_cog_index_ok ex_platform_posts_succeed t r c' k n show ?thesis by simp
qed

text \<open>
  C1 in the specification's wording does not hold where two links share a pair of
  channels: the links 7 and 8 both hold the channels 1 and 2, and a message in the
  channel 1 is posted twice into the channel 2.
\<close>

theorem shared_channel_pair_gets_two_copies:
  "links_of ex_cog_two_links 1 = [8, 7] \<and>
   link_members ex_cog_two_links 7 = [1, 2] \<and> link_members ex_cog_two_links 8 = [1, 2] \<and>
   fst (snd (on_message ex_platform ex_cog_two_links (ex_message 10 1))) =
     [Send 2 \<lparr>hook_id = 1002, hook_token = ''t''\<rparr> (make_payload (ex_message 10 1) []),
      Send 2 \<lparr>hook_id = 1002, hook_token = ''t''\<rparr> (make_payload (ex_message 10 1) [])] \<and>
   copies_posted 2 (fst (snd (on_message ex_platform ex_cog_two_links (ex_message 10 1)))) = 2"
  by (simp add: on_message_def links_of_def link_members_def ex_cog_two_links_simps
        ex_message_simps ex_platform_simps ex_copy_id truthy_opt_def fifo_set_def fifo_new_def
        fifo_keys_def copies_posted_def)

subsection \<open>A post that fails\<close>

text \<open>
  C2 asks that a destination whose post fails is skipped and the remaining destinations
  still get their copy. \<open>on_message\<close> has no handler around \<open>hook.send\<close>, unlike the loops
  of the edit, delete and reaction handlers, so the exception leaves both loops. Here
  the link 7 holds the channels 1, 2 and 3, the platform rejects the post into the
  channel 2, and a message arrives in the channel 1: the handler raises after the one
  failed call, the channel 3 gets no copy, and nothing is recorded.
\<close>

theorem rejected_post_aborts_fanout:
  "link_members ex_cog 7 = [1, 2, 3] \<and>
   on_message ex_platform_rejecting ex_cog (ex_message 10 1) =
     (ex_cog,
      [Send 2 \<lparr>hook_id = 1002, hook_token = ''t''\<rparr> (make_payload (ex_message 10 1) [])],
      Some HTTPException) \<and>
   copies_posted 3 (fst (snd (on_message ex_platform_rejecting ex_cog (ex_message 10 1)))) = 0"
  by (simp add: on_message_def link_members_def ex_cog_simps ex_message_simps
        ex_platform_rejecting_simps truthy_opt_def copies_posted_def)

subsection \<open>The reverse cache against the forward cache\<close>

lemma send_channels_items:
  "(fo_sent s \<noteq> [] \<longrightarrow> fo_sent (send_channels P m cs s) \<noteq> []) \<and>
   (\<forall>kv \<in> set (fifo_items (wmessages (fo_engine (send_channels P m cs s)))).
      kv \<in> set (fifo_items (wmessages (fo_engine s))) \<or>
      (snd kv = msg_id m \<and> fo_sent (send_channels P m cs s) \<noteq> []))"
proof (induction cs arbitrary: s)
  case Nil
  show ?case by simp
next
  case (Cons c cs)
  show ?case
  proof (cases "c \<noteq> msg_channel m")
    case False
    with Cons.IH[of s] show ?thesis by simp
  next
    case True
    show ?thesis
    proof (cases "if msg_attachments m \<noteq> [] then prepare_attachments P (msg_attachments m)
                  else Inr []")
      case (Inl e)
      with True show ?thesis by simp
    next
      case (Inr files)
      show ?thesis
      proof (cases "hooks (fo_engine s) c")
        case None
        with True Inr show ?thesis by simp
      next
        case (Some hook)
        show ?thesis
        proof (cases "hook_send P (length (fo_calls s)) hook (make_payload m files)")
          case (Inl e)
          with True Inr Some show ?thesis by simp
        next
          case (Inr msg)
          let ?s = "s\<lparr>fo_engine := (fo_engine s)
                         \<lparr>wmessages := fifo_set (wmessages (fo_engine s)) (msg_id msg) (msg_id m)\<rparr>,
                      fo_sent := fo_sent s @ [(c, msg)],
                      fo_calls := fo_calls s @ [Send c hook (make_payload m files)]\<rparr>"
          have step: "send_channels P m (c # cs) s = send_channels P m cs ?s"
            using True \<open>_ = Inr files\<close> Some Inr by simp
          from Cons.IH[of ?s] have sent: "fo_sent (send_channels P m cs ?s) \<noteq> []"
            by simp
          from Cons.IH[of ?s]
          have items: "\<forall>kv \<in> set (fifo_items (wmessages (fo_engine (send_channels P m cs ?s)))).
                kv \<in> set (fifo_items (wmessages (fo_engine ?s))) \<or>
                (snd kv = msg_id m \<and> fo_sent (send_channels P m cs ?s) \<noteq> [])"
            by (rule conjunct2)
          have "set (fifo_items (wmessages (fo_engine ?s)))
                  \<subseteq> insert (msg_id msg, msg_id m) (set (fifo_items (wmessages (fo_engine s))))"
            using fifo_items_set_subset[of "wmessages (fo_engine s)" "msg_id msg" "msg_id m"]
            by simp
          with items sent have
            "\<forall>kv \<in> set (fifo_items (wmessages (fo_engine (send_channels P m cs ?s)))).
                kv \<in> set (fifo_items (wmessages (fo_engine s))) \<or>
                (snd kv = msg_id m \<and> fo_sent (send_channels P m cs ?s) \<noteq> [])"
            by auto
          with sent step show ?thesis by simp
        qed
      qed
    qed
  qed
qed

lemma send_links_items:
  "(fo_sent s \<noteq> [] \<longrightarrow> fo_sent (send_links P m ls s) \<noteq> []) \<and>
   (\<forall>kv \<in> set (fifo_items (wmessages (fo_engine (send_links P m ls s)))).
      kv \<in> set (fifo_items (wmessages (fo_engine s))) \<or>
      (snd kv = msg_id m \<and> fo_sent (send_links P m ls s) \<noteq> []))"
proof (induction ls arbitrary: s)
  case Nil
  show ?case by simp
next
  case (Cons l ls)
  show ?case
  proof (cases "link_channels (fo_engine s) l")
    case None
    then show ?thesis by simp
  next
    case (Some cs)
    let ?s = "send_channels P m cs s"
    note inner = send_channels_items[of s P m cs]
    show ?thesis
    proof (cases "fo_raised ?s")
      case (Some e)
      with \<open>link_channels (fo_engine s) l = Some cs\<close> inner show ?thesis by simp
    next
      case None
      with \<open>link_channels (fo_engine s) l = Some cs\<close>
      have step: "send_links P m (l # ls) s = send_links P m ls ?s" by simp
      note outer = Cons.IH[of ?s]
      from inner outer have "fo_sent s \<noteq> [] \<longrightarrow> fo_sent (send_links P m ls ?s) \<noteq> []"
        by blast
      moreover from inner outer have
        "\<forall>kv \<in> set (fifo_items (wmessages (fo_engine (send_links P m ls ?s)))).
           kv \<in> set (fifo_items (wmessages (fo_engine s))) \<or>
           (snd kv = msg_id m \<and> fo_sent (send_links P m ls ?s) \<noteq> [])"
        by blast
      ultimately show ?thesis using step by simp
    qed
  qed
qed

lemma fanned_items:
  "\<forall>kv \<in> set (fifo_items (wmessages (fo_engine (fanned P st m)))).
      kv \<in> set (fifo_items (wmessages st)) \<or>
      (snd kv = msg_id m \<and> fo_sent (fanned P st m) \<noteq> [])"
  using send_links_items[of "\<lparr>fo_engine = st, fo_sent = [], fo_calls = [], fo_raised = None\<rparr>"
          P m "links_of st (msg_channel m)"]
  by (simp add: fanned_def)

lemma correlated_step:
  assumes "correlated G st"
    and "\<forall>kv \<in> set (fifo_items (wmessages st')).
           kv \<in> set (fifo_items (wmessages st)) \<or> snd kv \<in> set (fifo_keys (message_cache st'))"
  shows "correlated (G \<union> lost st st') st'"
  using assms unfolding correlated_def lost_def by blast

lemma self_listed_step:
  assumes "self_listed st"
    and "\<forall>kv \<in> set (fifo_items (message_cache st')).
           kv \<in> set (fifo_items (message_cache st)) \<or> (\<exists>cm \<in> set (snd kv). msg_id (snd cm) = fst kv)"
  shows "self_listed st'"
  using assms unfolding self_listed_def by blast

lemma lost_same: "message_cache st' = message_cache st \<Longrightarrow> lost st st' = {}"
  by (simp add: lost_def)

lemma cache_inv_on_message:
  assumes inv: "cache_inv G st" and ret: "snd (snd (on_message P st m)) = None"
  shows "cache_inv (G \<union> lost st (fst (on_message P st m))) (fst (on_message P st m))"
proof (cases "truthy_opt (msg_webhook_id m) \<or> links_of st (msg_channel m) = []")
  case True
  then have "fst (on_message P st m) = st" by (simp add: on_message_unfold)
  with inv show ?thesis by (simp add: lost_same)
next
  case False
  let ?s = "fanned P st m"
  note frame = fanned_frame[of P st m]
  note items = fanned_items[of P st m]
  from ret False have raised: "fo_raised ?s = None"
    by (cases "fo_raised ?s") (simp_all add: on_message_unfold)
  from inv have cor: "correlated G st" and sl: "self_listed st"
    and ok: "fifo_ok (message_cache st)" and pos: "0 < fifo_maxsize (message_cache st)"
    by (simp_all add: cache_inv_def)
  show ?thesis
  proof (cases "fo_sent ?s \<noteq> []")
    case False
    with \<open>\<not> (truthy_opt (msg_webhook_id m) \<or> links_of st (msg_channel m) = [])\<close> raised
    have st': "fst (on_message P st m) = fo_engine ?s" by (simp add: on_message_unfold)
    from items False have "\<forall>kv \<in> set (fifo_items (wmessages (fo_engine ?s))).
           kv \<in> set (fifo_items (wmessages st)) \<or> snd kv \<in> set (fifo_keys (message_cache (fo_engine ?s)))"
      by blast
    from correlated_step[OF cor this] st' frame sl ok pos show ?thesis
      by (simp add: cache_inv_def self_listed_def)
  next
    case True
    define st' where "st' = (fo_engine ?s)
                  \<lparr>wmessages := fifo_set (wmessages (fo_engine ?s)) (msg_id m) (msg_id m),
                   message_cache := fifo_set (message_cache (fo_engine ?s)) (msg_id m)
                       (fo_sent ?s @ [(msg_channel m, m)])\<rparr>"
    from True \<open>\<not> (truthy_opt (msg_webhook_id m) \<or> links_of st (msg_channel m) = [])\<close> raised
    have st': "fst (on_message P st m) = st'" by (simp add: on_message_unfold st'_def)
    have wm: "wmessages st' = fifo_set (wmessages (fo_engine ?s)) (msg_id m) (msg_id m)"
      by (simp add: st'_def)
    have mc: "message_cache st' =
                fifo_set (message_cache st) (msg_id m) (fo_sent ?s @ [(msg_channel m, m)])"
      using frame by (simp add: st'_def)
    have key: "msg_id m \<in> set (fifo_keys (message_cache st'))"
      by (simp add: mc fifo_key_set)
    have sub: "set (fifo_items (wmessages st'))
            \<subseteq> insert (msg_id m, msg_id m) (set (fifo_items (wmessages (fo_engine ?s))))"
      unfolding wm by (rule fifo_items_set_subset)
    have "\<forall>kv \<in> set (fifo_items (wmessages st')).
           kv \<in> set (fifo_items (wmessages st)) \<or> snd kv \<in> set (fifo_keys (message_cache st'))"
    proof
      fix kv assume "kv \<in> set (fifo_items (wmessages st'))"
      with sub have "kv = (msg_id m, msg_id m) \<or> kv \<in> set (fifo_items (wmessages (fo_engine ?s)))"
        by blast
      then show "kv \<in> set (fifo_items (wmessages st)) \<or> snd kv \<in> set (fifo_keys (message_cache st'))"
      proof
        assume "kv = (msg_id m, msg_id m)"
        with key show ?thesis by simp
      next
        assume "kv \<in> set (fifo_items (wmessages (fo_engine ?s)))"
        with items have "kv \<in> set (fifo_items (wmessages st)) \<or> snd kv = msg_id m" by blast
        with key show ?thesis by auto
      qed
    qed
    from correlated_step[OF cor this] have c: "correlated (G \<union> lost st st') st'" .
    have sub2: "set (fifo_items (message_cache st'))
            \<subseteq> insert (msg_id m, fo_sent ?s @ [(msg_channel m, m)]) (set (fifo_items (message_cache st)))"
      unfolding mc by (rule fifo_items_set_subset)
    have "\<forall>kv \<in> set (fifo_items (message_cache st')).
           kv \<in> set (fifo_items (message_cache st)) \<or> (\<exists>cm \<in> set (snd kv). msg_id (snd cm) = fst kv)"
    proof
      fix kv assume "kv \<in> set (fifo_items (message_cache st'))"
      with sub2 have "kv = (msg_id m, fo_sent ?s @ [(msg_channel m, m)]) \<or>
                      kv \<in> set (fifo_items (message_cache st))" by blast
      then show "kv \<in> set (fifo_items (message_cache st)) \<or>
                 (\<exists>cm \<in> set (snd kv). msg_id (snd cm) = fst kv)"
        by auto
    qed
    from self_listed_step[OF sl this] have s: "self_listed st'" .
    from ok pos have o: "fifo_ok (message_cache st')" "0 < fifo_maxsize (message_cache st')"
      by (simp_all add: mc fifo_ok_set fifo_maxsize_set)
    from c s o st' show ?thesis by (simp add: cache_inv_def)
  qed
qed


lemma cache_inv_mono: "cache_inv G st \<Longrightarrow> G \<subseteq> G' \<Longrightarrow> cache_inv G' st"
  unfolding cache_inv_def correlated_def by blast

lemma edit_copies_keeps_self:
  "ed_raised (edit_copies P before after copies s) = None \<Longrightarrow>
   set (ed_new_sent s) \<union> {cm \<in> set copies. msg_id (snd cm) = msg_id before}
     \<subseteq> set (ed_new_sent (edit_copies P before after copies s))"
proof (induction copies arbitrary: s)
  case Nil
  show ?case by simp
next
  case (Cons cm copies)
  obtain cid msg where cm: "cm = (cid, msg)" by (cases cm)
  show ?case
  proof (cases "msg_id msg = msg_id before")
    case True
    let ?s = "s\<lparr>ed_new_sent := ed_new_sent s @ [(cid, msg)]\<rparr>"
    from True cm have step: "edit_copies P before after (cm # copies) s
                               = edit_copies P before after copies ?s" by simp
    with Cons.prems have "ed_raised (edit_copies P before after copies ?s) = None" by simp
    from Cons.IH[OF this] step cm True show ?thesis by auto
  next
    case False
    show ?thesis
    proof (cases "msg_edit P msg (msg_content after) (prepare_embeds after)")
      case (Inr msg')
      let ?s = "s\<lparr>ed_new_sent := ed_new_sent s @ [(cid, msg')],
                  ed_calls := ed_calls s @
                    [Edit (msg_id msg) (msg_content after) (prepare_embeds after)]\<rparr>"
      from False cm Inr have step: "edit_copies P before after (cm # copies) s
                               = edit_copies P before after copies ?s" by simp
      with Cons.prems have "ed_raised (edit_copies P before after copies ?s) = None" by simp
      from Cons.IH[OF this] step cm False show ?thesis by auto
    next
      case (Inl e)
      show ?thesis
      proof (cases "is_NotFound e")
        case True
        let ?s = "s\<lparr>ed_calls := ed_calls s @
                    [Edit (msg_id msg) (msg_content after) (prepare_embeds after)]\<rparr>"
        from False cm Inl True have step: "edit_copies P before after (cm # copies) s
                               = edit_copies P before after copies ?s" by simp
        with Cons.prems have "ed_raised (edit_copies P before after copies ?s) = None" by simp
        from Cons.IH[OF this] step cm False show ?thesis by auto
      next
        case nf: False
        with False cm Inl Cons.prems show ?thesis by simp
      qed
    qed
  qed
qed

lemma cache_inv_on_message_edit:
  assumes inv: "cache_inv G st"
    and ret: "snd (snd (on_message_edit P st before after)) = None"
    and same: "msg_id after = msg_id before"
  shows "cache_inv G (fst (on_message_edit P st before after))"
proof (cases "fifo_get (message_cache st) (msg_id before)")
  case None
  with inv show ?thesis by (simp add: absent_edit_is_noop)
next
  case (Some copies)
  define s where "s = edit_copies P before after copies
                        \<lparr>ed_new_sent = [], ed_calls = [], ed_raised = None\<rparr>"
  define mc where "mc = fifo_del (message_cache st) (msg_id before)"
  from inv have cor: "correlated G st" and sl: "self_listed st"
    and ok: "fifo_ok (message_cache st)" and pos: "0 < fifo_maxsize (message_cache st)"
    by (simp_all add: cache_inv_def)
  have unfold: "on_message_edit P st before after =
      (case ed_raised s of
         Some e \<Rightarrow> (st\<lparr>message_cache := mc\<rparr>, ed_calls s, Some e)
       | None \<Rightarrow>
           if ed_new_sent s \<noteq> [] then
             (st\<lparr>message_cache := fifo_set mc (msg_id after) (ed_new_sent s)\<rparr>, ed_calls s, None)
           else (st\<lparr>message_cache := mc\<rparr>, ed_calls s, None))"
    using Some unfolding s_def mc_def by (simp add: on_message_edit_def fifo_pop_eq Let_def)
  from ret unfold have raised: "ed_raised s = None"
    by (cases "ed_raised s") simp_all
  from Some have "(msg_id before, copies) \<in> set (fifo_items (message_cache st))"
    by (rule fifo_get_in_items)
  with sl obtain cm where cm: "cm \<in> set copies" "msg_id (snd cm) = msg_id before"
    unfolding self_listed_def by fastforce
  from edit_copies_keeps_self[of P before after copies
         "\<lparr>ed_new_sent = [], ed_calls = [], ed_raised = None\<rparr>"] raised cm
  have kept: "cm \<in> set (ed_new_sent s)" by (auto simp: s_def)
  then have ne: "ed_new_sent s \<noteq> []" by auto
  define st' where "st' = st\<lparr>message_cache := fifo_set mc (msg_id after) (ed_new_sent s)\<rparr>"
  from unfold raised ne have st': "fst (on_message_edit P st before after) = st'"
    by (simp add: st'_def)
  have mc': "message_cache st' = fifo_set mc (msg_id before) (ed_new_sent s)"
    by (simp add: st'_def same)
  have wm': "wmessages st' = wmessages st" by (simp add: st'_def)
  from Some have "msg_id before \<in> set (fifo_keys (message_cache st))"
    using fifo_get_None_iff[of "message_cache st" "msg_id before"] by simp
  from fifo_keys_reinsert[OF ok this, of "ed_new_sent s"]
  have keys: "set (fifo_keys (message_cache st')) = set (fifo_keys (message_cache st))"
    by (simp add: mc' mc_def)
  from cor keys wm' have c: "correlated G st'"
    by (simp add: correlated_def)
  have sub: "set (fifo_items (message_cache st'))
               \<subseteq> insert (msg_id before, ed_new_sent s) (set (fifo_items (message_cache st)))"
    using fifo_items_set_subset[of mc "msg_id before" "ed_new_sent s"]
      fifo_items_del_subset[of "message_cache st" "msg_id before"]
    unfolding mc' mc_def by blast
  have "\<forall>kv \<in> set (fifo_items (message_cache st')).
           kv \<in> set (fifo_items (message_cache st)) \<or> (\<exists>cm \<in> set (snd kv). msg_id (snd cm) = fst kv)"
  proof
    fix kv assume "kv \<in> set (fifo_items (message_cache st'))"
    with sub have "kv = (msg_id before, ed_new_sent s) \<or> kv \<in> set (fifo_items (message_cache st))"
      by blast
    with kept cm(2) show "kv \<in> set (fifo_items (message_cache st)) \<or>
                 (\<exists>cm \<in> set (snd kv). msg_id (snd cm) = fst kv)"
      by auto
  qed
  from self_listed_step[OF sl this] have s': "self_listed st'" .
  from ok pos have o: "fifo_ok (message_cache st')" "0 < fifo_maxsize (message_cache st')"
    by (simp_all add: mc' mc_def fifo_ok_set fifo_ok_del fifo_maxsize_set fifo_maxsize_del)
  from c s' o st' show ?thesis by (simp add: cache_inv_def)
qed

lemma on_message_delete_state:
  "fst (on_message_delete P st m) = st \<or>
   (\<exists>origid. fst (on_message_delete P st m)
               = st\<lparr>message_cache := fifo_del (message_cache st) origid\<rparr>)"
proof (cases "fifo_get (wmessages st) (msg_id m)")
  case None
  then show ?thesis by (simp add: on_message_delete_def)
next
  case (Some origid)
  show ?thesis
  proof (cases "truthy origid")
    case False
    with Some show ?thesis by (simp add: on_message_delete_def)
  next
    case True
    with Some have "fst (on_message_delete P st m)
                      = st\<lparr>message_cache := fifo_del (message_cache st) origid\<rparr>"
      by (simp add: on_message_delete_def fifo_pop_eq split: prod.split)
    then show ?thesis by blast
  qed
qed

lemma cache_inv_on_message_delete:
  assumes inv: "cache_inv G st"
  shows "cache_inv (G \<union> lost st (fst (on_message_delete P st m))) (fst (on_message_delete P st m))"
proof -
  from on_message_delete_state[of P st m]
  consider "fst (on_message_delete P st m) = st"
    | origid where "fst (on_message_delete P st m)
                      = st\<lparr>message_cache := fifo_del (message_cache st) origid\<rparr>"
    by blast
  then show ?thesis
  proof cases
    case 1
    with inv show ?thesis by (simp add: lost_same)
  next
    case 2
    define st' where "st' = st\<lparr>message_cache := fifo_del (message_cache st) origid\<rparr>"
    from inv have cor: "correlated G st" and sl: "self_listed st"
      and ok: "fifo_ok (message_cache st)" and pos: "0 < fifo_maxsize (message_cache st)"
      by (simp_all add: cache_inv_def)
    have mc': "message_cache st' = fifo_del (message_cache st) origid"
      and wm': "wmessages st' = wmessages st"
      by (simp_all add: st'_def)
    from wm' have "\<forall>kv \<in> set (fifo_items (wmessages st')).
           kv \<in> set (fifo_items (wmessages st)) \<or> snd kv \<in> set (fifo_keys (message_cache st'))"
      by simp
    from correlated_step[OF cor this] have c: "correlated (G \<union> lost st st') st'" .
    from fifo_items_del_subset[of "message_cache st" origid]
    have "\<forall>kv \<in> set (fifo_items (message_cache st')).
           kv \<in> set (fifo_items (message_cache st)) \<or> (\<exists>cm \<in> set (snd kv). msg_id (snd cm) = fst kv)"
      unfolding mc' by blast
    from self_listed_step[OF sl this] have s': "self_listed st'" .
    from ok pos have o: "fifo_ok (message_cache st')" "0 < fifo_maxsize (message_cache st')"
      by (simp_all add: mc' fifo_ok_del fifo_maxsize_del)
    from c s' o 2 show ?thesis by (simp add: cache_inv_def st'_def)
  qed
qed

lemma run_cache_inv:
  "cache_inv G st \<Longrightarrow> undisturbed st evs \<Longrightarrow>
   cache_inv (G \<union> evicted st evs \<union> deleted st evs) (run st evs)"
proof (induction evs arbitrary: G st)
  case Nil
  then show ?case by simp
next
  case (Cons pe evs)
  obtain P ev where pe: "pe = (P, ev)" by (cases pe)
  let ?st' = "fst (handle P st ev)"
  from Cons.prems(2) pe have rest: "undisturbed ?st' evs" by simp
  show ?case
  proof (cases ev)
    case (NewMessage m)
    with Cons.prems(2) pe have "snd (snd (on_message P st m)) = None" by simp
    from cache_inv_on_message[OF Cons.prems(1) this] NewMessage
    have "cache_inv (G \<union> lost st ?st') ?st'" by simp
    from Cons.IH[OF this rest] pe NewMessage show ?thesis
      by (simp add: Un_assoc)
  next
    case (MessageEdit before after)
    with Cons.prems(2) pe have "snd (snd (on_message_edit P st before after)) = None"
      and "msg_id after = msg_id before" by simp_all
    from cache_inv_on_message_edit[OF Cons.prems(1) this] MessageEdit
    have "cache_inv G ?st'" by simp
    from Cons.IH[OF this rest] pe MessageEdit show ?thesis by simp
  next
    case (MessageDelete m)
    from cache_inv_on_message_delete[OF Cons.prems(1), of P m] MessageDelete
    have "cache_inv (G \<union> lost st ?st') ?st'" by simp
    from Cons.IH[OF this rest] pe MessageDelete show ?thesis
      by (simp add: Un_ac)
  next
    case (ReactionAdd r)
    with Cons.prems(1) have "cache_inv G ?st'" by (simp add: on_reaction_add_same)
    from Cons.IH[OF this rest] pe ReactionAdd show ?thesis by simp
  qed
qed

lemma caches_fresh_inv: "caches_fresh st \<Longrightarrow> cache_inv {} st"
  by (simp add: caches_fresh_def cache_inv_def correlated_def self_listed_def fifo_ok_def
        fifo_new_def fifo_keys_def)

text \<open>
  C4, as the code has it. Start from a cog whose caches are as \<open>__init__\<close> made them and
  run any sequence of new-message, edit, delete and reaction events in which no
  new-message or edit handler raises. Then every id in the reverse cache maps to an
  original that is a key of the forward cache, unless the forward entry of that original
  was evicted while a later message was recorded, or was removed by a delete event:
  \<open>on_message_delete\<close> pops the forward entry and leaves the reverse entries where they
  are.
\<close>

theorem reverse_entries_backed_unless_evicted_or_deleted:
  assumes "caches_fresh st" and "undisturbed st evs"
  shows "\<forall>k origid. fifo_get (wmessages (run st evs)) k = Some origid \<longrightarrow>
           fifo_get (message_cache (run st evs)) origid \<noteq> None \<or>
           origid \<in> evicted st evs \<or> origid \<in> deleted st evs"
proof (intro allI impI)
  fix k origid assume "fifo_get (wmessages (run st evs)) k = Some origid"
  then have "(k, origid) \<in> set (fifo_items (wmessages (run st evs)))"
    by (rule fifo_get_in_items)
  moreover from run_cache_inv[OF caches_fresh_inv[OF assms(1)] assms(2)]
  have "correlated (evicted st evs \<union> deleted st evs) (run st evs)"
    by (simp add: cache_inv_def)
  ultimately have "origid \<in> set (fifo_keys (message_cache (run st evs))) \<or>
                   origid \<in> evicted st evs \<union> deleted st evs"
    unfolding correlated_def by fastforce
  then show "fifo_get (message_cache (run st evs)) origid \<noteq> None \<or>
           origid \<in> evicted st evs \<or> origid \<in> deleted st evs"
    by (auto simp: fifo_get_None_iff)
qed


lemma ex_cog_caches_fresh: "caches_fresh ex_cog"
  by (simp add: caches_fresh_def ex_cog_simps)

lemma ex_run_sent: "fst (handle ex_platform ex_cog (NewMessage (ex_message 10 1))) = ex_cog_sent"
  by (simp add: ex_cog_sent_def)

lemma ex_lost_sent: "lost ex_cog ex_cog_sent = {}"
  by (simp add: lost_def ex_cog_simps fifo_new_def fifo_keys_def)

theorem reverse_entries_backed_unless_evicted_or_deleted_witness:
  "caches_fresh ex_cog \<and>
   undisturbed ex_cog
     [(ex_platform, NewMessage (ex_message 10 1)),
      (ex_platform_rejecting,
       MessageEdit (ex_message 10 1) ((ex_message 10 1)\<lparr>msg_content := ''hello world''\<rparr>))] \<and>
   fifo_get (wmessages (run ex_cog
     [(ex_platform, NewMessage (ex_message 10 1)),
      (ex_platform_rejecting,
       MessageEdit (ex_message 10 1) ((ex_message 10 1)\<lparr>msg_content := ''hello world''\<rparr>))]))
     101 = Some 10 \<and>
   (\<exists>copies. fifo_get (message_cache (run ex_cog
     [(ex_platform, NewMessage (ex_message 10 1)),
      (ex_platform_rejecting,
       MessageEdit (ex_message 10 1) ((ex_message 10 1)\<lparr>msg_content := ''hello world''\<rparr>))]))
     10 = Some copies)"
proof -
  let ?after = "(ex_message 10 1)\<lparr>msg_content := ''hello world''\<rparr>"
  let ?evs = "[(ex_platform, NewMessage (ex_message 10 1)),
               (ex_platform_rejecting, MessageEdit (ex_message 10 1) ?after)]"
  have ret1: "snd (snd (on_message ex_platform ex_cog (ex_message 10 1))) = None"
    by (simp add: ex_first_send)
  have ret2: "snd (snd (on_message_edit ex_platform_rejecting ex_cog_sent (ex_message 10 1) ?after))
                = None"
    by (simp add: on_message_edit_def fifo_pop_def fifo_get_def ex_cog_sent_simps ex_message_simps
          ex_platform_rejecting_simps ex_copy_id is_NotFound_def)
  have und: "undisturbed ex_cog ?evs"
    using ret1 ret2 by (simp add: ex_run_sent ex_message_simps del: handle.simps(1))
       (simp add: ex_cog_sent_def[symmetric])
  have wm: "wmessages (run ex_cog ?evs) = wmessages ex_cog_sent"
    using on_message_edit_maxsize[of ex_platform_rejecting ex_cog_sent "ex_message 10 1" ?after]
    by (simp add: ex_cog_sent_def[symmetric])
  then have rev: "fifo_get (wmessages (run ex_cog ?evs)) 101 = Some 10"
    by (simp add: ex_cog_sent_copies)
  have ev: "evicted ex_cog ?evs = {}"
    by (simp add: ex_cog_sent_def[symmetric] ex_lost_sent)
  have dl: "deleted ex_cog ?evs = {}"
    by simp
  from reverse_entries_backed_unless_evicted_or_deleted[OF ex_cog_caches_fresh und] rev ev dl
  have "fifo_get (message_cache (run ex_cog ?evs)) 10 \<noteq> None"
    by blast
  then have "\<exists>copies. fifo_get (message_cache (run ex_cog ?evs)) 10 = Some copies"
    by blast
  with ex_cog_caches_fresh und rev show ?thesis by (intro conjI)
qed

text \<open>
  C4 in the specification's wording does not hold after a delete: the message 10 is
  copied as 100 and 101 and then deleted. No entry was evicted, the forward entry of 10
  is gone, and the reverse cache still maps 100 to 10.
\<close>

theorem deleted_message_leaves_reverse_entries:
  "fifo_get (wmessages (run ex_cog
     [(ex_platform, NewMessage (ex_message 10 1)),
      (ex_platform, MessageDelete (ex_message 10 1))])) 100 = Some 10 \<and>
   fifo_get (message_cache (run ex_cog
     [(ex_platform, NewMessage (ex_message 10 1)),
      (ex_platform, MessageDelete (ex_message 10 1))])) 10 = None \<and>
   evicted ex_cog
     [(ex_platform, NewMessage (ex_message 10 1)),
      (ex_platform, MessageDelete (ex_message 10 1))] = {}"
proof -
  have del: "fst (on_message_delete ex_platform ex_cog_sent (ex_message 10 1))
               = ex_cog_sent\<lparr>message_cache := fifo_del (message_cache ex_cog_sent) 10\<rparr>"
    by (simp add: on_message_delete_def fifo_pop_eq ex_cog_sent_copies ex_message_simps truthy_def
          split: prod.split)
  show ?thesis
    by (simp add: ex_cog_sent_def[symmetric] del ex_cog_sent_copies fifo_get_del ex_lost_sent)
qed

end
